theory Spec2Isabelle
  imports Complex_Main "HOL-Library.Multiset"
begin

section \<open>Nearest-neighbour matching of document arrays\<close>

text \<open>
  A shallow embedding of \<^verbatim>\<open>DocumentArrayNeuralOpsMixin.match\<close>, \<^verbatim>\<open>_match\<close> and
  \<^verbatim>\<open>_match_online\<close> of \<^verbatim>\<open>jina/types/arrays/neural_ops.py\<close>.

  Distances returned by a distance provider are exact real numbers. The value
  \<^verbatim>\<open>np.inf\<close> that initialises the running best arrays of the online matcher is
  the extra element \<open>PInf\<close> of the type \<open>xreal\<close>; every distance and score that
  reaches a match list is an \<open>xreal\<close>.
\<close>

subsection \<open>Scores: reals extended with plus infinity\<close>

datatype xreal = Fin real | PInf

instantiation xreal :: linorder
begin

fun less_eq_xreal :: "xreal \<Rightarrow> xreal \<Rightarrow> bool" where
  "less_eq_xreal (Fin a) (Fin b) = (a \<le> b)"
| "less_eq_xreal (Fin a) PInf = True"
| "less_eq_xreal PInf (Fin b) = False"
| "less_eq_xreal PInf PInf = True"

definition less_xreal :: "xreal \<Rightarrow> xreal \<Rightarrow> bool" where
  "less_xreal x y = (x \<le> y \<and> \<not> y \<le> x)"

instance
proof
  fix x y z :: xreal
  show "(x < y) = (x \<le> y \<and> \<not> y \<le> x)"
    by (simp add: less_xreal_def)
  show "x \<le> x"
    by (cases x) simp_all
  show "x \<le> y \<Longrightarrow> y \<le> z \<Longrightarrow> x \<le> z"
    by (cases x; cases y; cases z) simp_all
  show "x \<le> y \<Longrightarrow> y \<le> x \<Longrightarrow> x = y"
    by (cases x; cases y) simp_all
  show "x \<le> y \<or> y \<le> x"
    by (cases x; cases y) auto
qed

end

subsection \<open>Documents, collections and the store\<close>

datatype error = ValueError | TypeError | IndexError | AssertionError | ProviderError

text \<open>The embedding of a document: a dense \<^verbatim>\<open>np.ndarray\<close>, a sparse array, or none.\<close>

datatype embed = Dense "real list" | Sparse "real list" | NoEmbedding

text \<open>
  A document carries its id, its embedding, its scores (metric name to value) and
  its matches, which are documents stored by value inside their parent.
\<close>

datatype doc = Doc (doc_id: string) (embedding: embed)
  (scores: "(string \<times> xreal) list") (matches: "doc list")

text \<open>
  The documents held by a \<^verbatim>\<open>DocumentArray\<close> are shared objects: two arrays, or one
  array passed as both sides of \<^verbatim>\<open>match\<close>, may hold the same document. A collection
  is therefore a list of addresses, and the store maps an address to the document
  that lives there.
\<close>

type_synonym store = "nat \<Rightarrow> doc"

type_synonym darray = "nat list"

text \<open>
  A distance provider \<^verbatim>\<open>cdist(x_mat, y_mat, metric_name, is_sparse=...)\<close>: the first
  argument is the \<^verbatim>\<open>is_sparse\<close> keyword. It returns the matrix of distances, one row
  per row of \<^verbatim>\<open>x_mat\<close>, or raises.
\<close>

type_synonym cdist = "bool \<Rightarrow> embed list \<Rightarrow> embed list \<Rightarrow> string \<Rightarrow> error + real list list"

text \<open>
  The \<^verbatim>\<open>metric\<close> argument: a string, a callable (with its \<^verbatim>\<open>__name__\<close>), or any other
  Python object.
\<close>

datatype metric = MetricName string | MetricFn string cdist | MetricOther

text \<open>The two providers \<^verbatim>\<open>match\<close> imports for a metric given by name.\<close>

record providers =
  scipy_cdist :: cdist
  native_cdist :: cdist

text \<open>
  The keyword arguments of \<^verbatim>\<open>match\<close>. The traversal paths and the filter function
  keep their default \<^verbatim>\<open>None\<close>, so that \<^verbatim>\<open>lhv\<close> is \<^verbatim>\<open>self\<close> and \<^verbatim>\<open>rhv\<close> is \<^verbatim>\<open>darray\<close>.
\<close>

record match_args =
  metric :: metric
  limit :: "real option"
  normalization :: "(real \<times> real) option"
  metric_name :: "string option"
  batch_size :: "int option"
  use_scipy :: bool
  exclude_self :: bool
  is_sparse :: bool
  only_id :: bool

subsection \<open>The helpers of \<^verbatim>\<open>jina.math.helper\<close>\<close>

text \<open>
  Modelled from the spec: \<^verbatim>\<open>top_k\<close> of \<^verbatim>\<open>jina/math/helper.py\<close>, which is not among the
  sources. For each row it returns the \<open>k\<close> smallest values and their column
  positions, ascending by value, ties in column order; \<open>k\<close> is clamped to the number
  of columns (\<open>take\<close> does so).
\<close>

definition top_k_row :: "nat \<Rightarrow> 'a::linorder list \<Rightarrow> ('a \<times> nat) list" where
  "top_k_row k row = take k (sort_key fst (zip row [0..<length row]))"

text \<open>
  Modelled from the spec: \<^verbatim>\<open>top_k\<close> on a matrix, row by row; it returns the array of
  distances and the array of column positions.
\<close>

definition top_k :: "'a::linorder list list \<Rightarrow> nat \<Rightarrow> 'a list list \<times> nat list list" where
  "top_k D k = (map (\<lambda>row. map fst (top_k_row k row)) D,
                map (\<lambda>row. map snd (top_k_row k row)) D)"

text \<open>
  Modelled from the spec: \<^verbatim>\<open>minmax_normalize\<close> of \<^verbatim>\<open>jina/math/helper.py\<close>, which is not
  among the sources. The linear map \<open>v' = lo + (v - min) * (hi - lo) / (max - min)\<close>,
  and \<open>lo\<close> when \<open>max = min\<close>. When no observed range is supplied it is computed from
  each row of the values.
\<close>

fun normalize_value :: "real \<times> real \<Rightarrow> real \<times> real \<Rightarrow> real \<Rightarrow> real" where
  "normalize_value (lo, hi) (mn, mx) v =
     (if mx = mn then lo else lo + (v - mn) * (hi - lo) / (mx - mn))"

text \<open>\<^verbatim>\<open>np.min\<close> and \<^verbatim>\<open>np.max\<close> along the last axis, for one non-empty row.\<close>

fun row_min :: "real list \<Rightarrow> real" where
  "row_min [] = 0"
| "row_min (x # xs) = fold min xs x"

fun row_max :: "real list \<Rightarrow> real" where
  "row_max [] = 0"
| "row_max (x # xs) = fold max xs x"

text \<open>
  Modelled from the spec: \<^verbatim>\<open>minmax_normalize\<close> on a matrix. A supplied observed range
  is a pair of columns, one minimum and one maximum per row.
\<close>

definition minmax_normalize ::
  "real list list \<Rightarrow> real \<times> real \<Rightarrow> (real list \<times> real list) option \<Rightarrow> real list list" where
  "minmax_normalize x t_range x_range =
     (case x_range of
        Some (min_d, max_d) \<Rightarrow>
          map2 (\<lambda>row (mn, mx). map (normalize_value t_range (mn, mx)) row) x (zip min_d max_d)
      | None \<Rightarrow>
          map (\<lambda>row. map (normalize_value t_range (row_min row, row_max row)) row) x)"

text \<open>
  Modelled from the spec: \<^verbatim>\<open>update_rows_x_mat_best\<close> of \<^verbatim>\<open>jina/math/helper.py\<close>, which
  is not among the sources. Row by row, the running best candidates and the new
  candidates are concatenated and the \<open>k\<close> smallest of the concatenation are
  kept. Among equal distances the earlier column of the concatenation is kept.
\<close>

definition merge_row :: "nat \<Rightarrow> (xreal \<times> nat) list \<Rightarrow> (xreal \<times> nat) list \<Rightarrow> (xreal \<times> nat) list" where
  "merge_row k best new = take k (sort_key fst (best @ new))"

text \<open>
  Modelled from the spec: \<^verbatim>\<open>update_rows_x_mat_best\<close> on the two pairs of arrays; it
  returns the new running best distances and indices.
\<close>

definition update_rows_x_mat_best ::
  "xreal list list \<Rightarrow> nat list list \<Rightarrow> xreal list list \<Rightarrow> nat list list \<Rightarrow> nat
     \<Rightarrow> xreal list list \<times> nat list list" where
  "update_rows_x_mat_best x_mat_best x_inds_best x_mat x_inds k =
     (let rows = map2 (merge_row k) (map2 zip x_mat_best x_inds_best) (map2 zip x_mat x_inds)
      in (map (map fst) rows, map (map snd) rows))"

subsection \<open>The in-memory matcher\<close>

text \<open>
  \<^verbatim>\<open>_match\<close>. The row minimum and maximum are taken from the full distance matrix;
  \<^verbatim>\<open>np.min\<close> raises on a row without columns.
\<close>

definition priv_match ::
  "store \<Rightarrow> darray \<Rightarrow> darray \<Rightarrow> cdist \<Rightarrow> nat \<Rightarrow> (real \<times> real) option \<Rightarrow> string \<Rightarrow> bool
     \<Rightarrow> error + (xreal list list \<times> nat list list)" where
  "priv_match s self darray cdist lmt nrm mname sparse =
     (let x_mat = map (\<lambda>a. embedding (s a)) self;
          y_mat = map (\<lambda>a. embedding (s a)) darray
      in case cdist sparse x_mat y_mat mname of
           Inl e \<Rightarrow> Inl e
         | Inr dists \<Rightarrow>
             (let (dst, idx) = top_k dists (min lmt (length darray))
              in case nrm of
                   None \<Rightarrow> Inr (map (map Fin) dst, idx)
                 | Some t_range \<Rightarrow>
                     if [] \<in> set dists then Inl ValueError
                     else Inr (map (map Fin)
                                 (minmax_normalize dst t_range
                                    (Some (map row_min dists, map row_max dists))),
                               idx)))"

subsection \<open>The online matcher\<close>

text \<open>\<^verbatim>\<open>range(0, n, step)\<close> for a positive step.\<close>

definition py_range :: "nat \<Rightarrow> nat \<Rightarrow> nat list" where
  "py_range n step = map (\<lambda>j. j * step) [0..<(n + step - 1) div step]"

text \<open>
  One pass of the batch loop of \<^verbatim>\<open>_match_online\<close>, for the batch that starts at
  position \<open>i\<close>. Stacking the running best arrays with the batch's arrays needs the
  same number of rows on both sides.
\<close>

definition online_step ::
  "store \<Rightarrow> embed list \<Rightarrow> darray \<Rightarrow> cdist \<Rightarrow> nat \<Rightarrow> (real \<times> real) option \<Rightarrow> string \<Rightarrow> nat
     \<Rightarrow> nat \<Rightarrow> xreal list list \<times> nat list list \<Rightarrow> error + (xreal list list \<times> nat list list)" where
  "online_step s x_mat darray cdist lmt nrm mname bsize i best =
     (let y_batch = map (\<lambda>a. embedding (s a)) (take bsize (drop i darray))
      in case cdist False x_mat y_batch mname of
           Inl e \<Rightarrow> Inl e
         | Inr distances \<Rightarrow>
             (let (dists, inds) = top_k distances lmt;
                  dists = (case nrm of
                             None \<Rightarrow> dists
                           | Some t_range \<Rightarrow> minmax_normalize dists t_range None);
                  inds = map (map (\<lambda>j. i + j)) inds
              in if length dists \<noteq> length (fst best) then Inl ValueError
                 else Inr (update_rows_x_mat_best (fst best) (snd best)
                             (map (map Fin) dists) inds lmt)))"

fun online_loop ::
  "(nat \<Rightarrow> xreal list list \<times> nat list list \<Rightarrow> error + (xreal list list \<times> nat list list))
     \<Rightarrow> nat list \<Rightarrow> xreal list list \<times> nat list list
     \<Rightarrow> error + (xreal list list \<times> nat list list)" where
  "online_loop step [] best = Inr best"
| "online_loop step (i # is) best =
     (case step i best of Inl e \<Rightarrow> Inl e | Inr best' \<Rightarrow> online_loop step is best')"

text \<open>
  \<^verbatim>\<open>_match_online\<close>. The assertion reads \<^verbatim>\<open>darray[0]\<close>, which raises on an empty
  collection; \<^verbatim>\<open>range\<close> raises on a zero step. The final \<^verbatim>\<open>argsort\<close> orders each row
  by distance and the indices are permuted with it.
\<close>

definition priv_match_online ::
  "store \<Rightarrow> darray \<Rightarrow> darray \<Rightarrow> cdist \<Rightarrow> nat \<Rightarrow> (real \<times> real) option \<Rightarrow> string \<Rightarrow> nat
     \<Rightarrow> error + (xreal list list \<times> nat list list)" where
  "priv_match_online s self darray cdist lmt nrm mname bsize =
     (case darray of
        [] \<Rightarrow> Inl IndexError
      | a0 # _ \<Rightarrow>
          (case embedding (s a0) of
             Dense _ \<Rightarrow>
               (let x_mat = map (\<lambda>a. embedding (s a)) self;
                    n_x = length x_mat;
                    top_dists = replicate n_x (replicate lmt PInf);
                    top_inds = replicate n_x (replicate lmt 0)
                in if bsize = 0 then Inl ValueError
                   else
                     case online_loop
                            (online_step s x_mat darray cdist lmt nrm mname
                               bsize)
                            (py_range (length darray) bsize) (top_dists, top_inds) of
                       Inl e \<Rightarrow> Inl e
                     | Inr (top_dists, top_inds) \<Rightarrow>
                         (let rows = map (sort_key fst) (map2 zip top_dists top_inds)
                          in Inr (map (map fst) rows, map (map snd) rows)))
           | _ \<Rightarrow> Inl AssertionError))"

subsection \<open>Assembling the matches\<close>

text \<open>\<^verbatim>\<open>Document(d, copy=True)\<close> followed by \<^verbatim>\<open>d.pop('matches')\<close>.\<close>

definition pop_matches :: "doc \<Rightarrow> doc" where
  "pop_matches d = Doc (doc_id d) (embedding d) (scores d) []"

text \<open>
  Modelled from the spec: \<^verbatim>\<open>MatchArray.append\<close>, which is not among the sources. The
  appended match is the given document, by value, with the score
  \<open>{metric_name: distance}\<close>.
\<close>

definition append_match :: "doc \<Rightarrow> doc \<Rightarrow> (string \<times> xreal) list \<Rightarrow> doc" where
  "append_match q d sc =
     Doc (doc_id q) (embedding q) (scores q)
       (matches q @ [Doc (doc_id d) (embedding d) sc (matches d)])"

text \<open>\<^verbatim>\<open>d.id in lhv\<close>: membership of an id in a collection.\<close>

definition id_in :: "store \<Rightarrow> string \<Rightarrow> darray \<Rightarrow> bool" where
  "id_in s i lhv = (i \<in> set (map (\<lambda>a. doc_id (s a)) lhv))"

text \<open>
  The inner loop of \<^verbatim>\<open>match\<close> for the query at address \<open>q\<close>, over the pairs of
  \<^verbatim>\<open>zip(_ids, _dists)\<close>, with the counter \<open>num_matches\<close>. \<open>stop\<close> is the value of
  \<^verbatim>\<open>limit or _limit\<close>. Reading \<^verbatim>\<open>rhv[int(_id)]\<close> past the end raises.
\<close>

fun attach ::
  "darray \<Rightarrow> darray \<Rightarrow> bool \<Rightarrow> bool \<Rightarrow> string \<Rightarrow> nat \<Rightarrow> nat \<Rightarrow> (nat \<times> xreal) list \<Rightarrow> nat
     \<Rightarrow> store \<Rightarrow> error option \<times> store" where
  "attach lhv rhv oid excl name stop q [] num_matches s = (None, s)"
| "attach lhv rhv oid excl name stop q ((i, dv) # rest) num_matches s =
     (if length rhv \<le> i then (Some IndexError, s)
      else
        let d = (if oid then Doc (doc_id (s (rhv ! i))) NoEmbedding [] [] else s (rhv ! i));
            d = (if id_in s (doc_id d) lhv then pop_matches d else d)
        in if \<not> (doc_id d = doc_id (s q) \<and> excl)
           then
             let s' = s(q := append_match (s q) d [(name, dv)])
             in if stop \<le> num_matches + 1 then (None, s')
                else attach lhv rhv oid excl name stop q rest (num_matches + 1) s'
           else attach lhv rhv oid excl name stop q rest num_matches s)"

text \<open>\<^verbatim>\<open>_q.matches.clear()\<close>.\<close>

definition clear_matches :: "doc \<Rightarrow> doc" where
  "clear_matches d = Doc (doc_id d) (embedding d) (scores d) []"

text \<open>The outer loop of \<^verbatim>\<open>match\<close>, over \<^verbatim>\<open>zip(lhv, idx, dist)\<close>.\<close>

fun assemble ::
  "darray \<Rightarrow> darray \<Rightarrow> bool \<Rightarrow> bool \<Rightarrow> string \<Rightarrow> nat
     \<Rightarrow> (nat \<times> nat list \<times> xreal list) list \<Rightarrow> store \<Rightarrow> error option \<times> store" where
  "assemble lhv rhv oid excl name stop [] s = (None, s)"
| "assemble lhv rhv oid excl name stop ((q, ids, dists) # rows) s =
     (case attach lhv rhv oid excl name stop q (zip ids dists) 0
             (s(q := clear_matches (s q))) of
        (Some e, s') \<Rightarrow> (Some e, s')
      | (None, s') \<Rightarrow> assemble lhv rhv oid excl name stop rows s')"

subsection \<open>\<^verbatim>\<open>match\<close>\<close>

text \<open>The provider chosen for a metric that is a callable or a string.\<close>

definition chosen_cdist :: "providers \<Rightarrow> match_args \<Rightarrow> cdist option" where
  "chosen_cdist env a =
     (case metric a of
        MetricFn _ f \<Rightarrow> Some f
      | MetricName _ \<Rightarrow> Some (if use_scipy a then scipy_cdist env else native_cdist env)
      | MetricOther \<Rightarrow> None)"

text \<open>\<^verbatim>\<open>metric_name or (metric.__name__ if callable(metric) else metric)\<close>.\<close>

definition chosen_name :: "match_args \<Rightarrow> string" where
  "chosen_name a =
     (let fallback = (case metric a of MetricFn n _ \<Rightarrow> n | MetricName n \<Rightarrow> n | MetricOther \<Rightarrow> [])
      in case metric_name a of
           None \<Rightarrow> fallback
         | Some n \<Rightarrow> if n = [] then fallback else n)"

text \<open>\<^verbatim>\<open>int(limit)\<close> for a positive \<^verbatim>\<open>limit\<close>, which may be a float.\<close>

definition int_limit :: "match_args \<Rightarrow> nat option" where
  "int_limit a = map_option (\<lambda>l. nat \<lfloor>l\<rfloor>) (limit a)"

text \<open>\<^verbatim>\<open>_limit\<close>, the number of candidates asked of the matcher.\<close>

definition inner_limit :: "match_args \<Rightarrow> darray \<Rightarrow> nat" where
  "inner_limit a rhv =
     (case int_limit a of
        None \<Rightarrow> length rhv
      | Some l \<Rightarrow> l + (if exclude_self a then 1 else 0))"

text \<open>\<^verbatim>\<open>limit or _limit\<close>, the number of matches at which the inner loop stops.\<close>

definition stop_limit :: "match_args \<Rightarrow> darray \<Rightarrow> nat" where
  "stop_limit a rhv =
     (case int_limit a of
        None \<Rightarrow> inner_limit a rhv
      | Some l \<Rightarrow> if l = 0 then inner_limit a rhv else l)"

text \<open>
  \<^verbatim>\<open>match\<close>: the result is the exception raised, if any, and the store the call
  leaves behind.
\<close>

definition match :: "providers \<Rightarrow> store \<Rightarrow> darray \<Rightarrow> darray \<Rightarrow> match_args \<Rightarrow> error option \<times> store" where
  "match env s self darray a =
     (if (case limit a of None \<Rightarrow> False | Some l \<Rightarrow> l \<le> 0) then (Some ValueError, s)
      else if (case batch_size a of None \<Rightarrow> False | Some b \<Rightarrow> b \<le> 0) then (Some ValueError, s)
      else
        let lhv = self; rhv = darray
        in if lhv = [] \<or> rhv = [] then (None, s)
           else
             case chosen_cdist env a of
               None \<Rightarrow> (Some TypeError, s)
             | Some cdist \<Rightarrow>
                 (let name = chosen_name a;
                      ulimit = inner_limit a rhv
                  in case (case batch_size a of
                             Some b \<Rightarrow>
                               priv_match_online s lhv rhv cdist ulimit (normalization a) name (nat b)
                           | None \<Rightarrow>
                               priv_match s lhv rhv cdist ulimit (normalization a) name
                                 (is_sparse a)) of
                       Inl e \<Rightarrow> (Some e, s)
                     | Inr (dst, idx) \<Rightarrow>
                         assemble lhv rhv (only_id a) (exclude_self a) name (stop_limit a rhv)
                           (zip lhv (zip idx dst)) s))"

text \<open>
  A provider that computes a pairwise distance: entry \<open>(r, c)\<close> of its matrix is
  the distance between row \<open>r\<close> of the first operand and row \<open>c\<close> of the second.
\<close>

definition pairwise_cdist :: "(string \<Rightarrow> embed \<Rightarrow> embed \<Rightarrow> real) \<Rightarrow> cdist" where
  "pairwise_cdist d sp x_mat y_mat name = Inr (map (\<lambda>x. map (d name x) y_mat) x_mat)"

text \<open>The score a match carries under a metric name.\<close>

definition score_of :: "string \<Rightarrow> doc \<Rightarrow> xreal option" where
  "score_of name m = map_of (scores m) name"

subsection \<open>The match list a call builds, as a function of the initial store\<close>

text \<open>
  The candidate the inner loop resolves at target position \<open>i\<close>, the match it
  appends for a pair of \<^verbatim>\<open>zip(_ids, _dists)\<close>, the test that lets a candidate through
  the self-exclusion, and the list built for a query from its candidates.
\<close>

definition resolve :: "store \<Rightarrow> darray \<Rightarrow> darray \<Rightarrow> bool \<Rightarrow> nat \<Rightarrow> doc" where
  "resolve s lhv rhv oid i =
     (let d = (if oid then Doc (doc_id (s (rhv ! i))) NoEmbedding [] [] else s (rhv ! i))
      in if id_in s (doc_id d) lhv then pop_matches d else d)"

definition entry :: "store \<Rightarrow> darray \<Rightarrow> darray \<Rightarrow> bool \<Rightarrow> string \<Rightarrow> nat \<times> xreal \<Rightarrow> doc" where
  "entry s lhv rhv oid name c =
     (let d = resolve s lhv rhv oid (fst c)
      in Doc (doc_id d) (embedding d) [(name, snd c)] (matches d))"

definition keep :: "store \<Rightarrow> darray \<Rightarrow> darray \<Rightarrow> bool \<Rightarrow> bool \<Rightarrow> nat \<Rightarrow> nat \<times> xreal \<Rightarrow> bool" where
  "keep s lhv rhv oid excl q c =
     (\<not> (doc_id (resolve s lhv rhv oid (fst c)) = doc_id (s q) \<and> excl))"

definition built ::
  "store \<Rightarrow> darray \<Rightarrow> darray \<Rightarrow> bool \<Rightarrow> bool \<Rightarrow> string \<Rightarrow> nat \<Rightarrow> nat \<Rightarrow> (nat \<times> xreal) list
     \<Rightarrow> doc list" where
  "built s lhv rhv oid excl name stop q cands =
     map (entry s lhv rhv oid name) (take (max 1 stop) (filter (keep s lhv rhv oid excl q) cands))"

text \<open>
  Two stores agree when they differ at most in the match lists of the documents of
  the source collection.
\<close>

definition agree :: "darray \<Rightarrow> store \<Rightarrow> store \<Rightarrow> bool" where
  "agree lhv s0 s =
     (\<forall>a. doc_id (s a) = doc_id (s0 a) \<and> embedding (s a) = embedding (s0 a)
          \<and> scores (s a) = scores (s0 a) \<and> (a \<notin> set lhv \<longrightarrow> s a = s0 a))"

text \<open>A document with further matches appended.\<close>

definition add_matches :: "doc \<Rightarrow> doc list \<Rightarrow> doc" where
  "add_matches d ms = Doc (doc_id d) (embedding d) (scores d) (matches d @ ms)"

subsection \<open>The matchers, row by row\<close>

text \<open>
  The row of distances between the query at address \<open>q\<close> and the documents of
  the target collection, under a pairwise metric.
\<close>

definition drow :: "(string \<Rightarrow> embed \<Rightarrow> embed \<Rightarrow> real) \<Rightarrow> string \<Rightarrow> store \<Rightarrow> darray \<Rightarrow> nat \<Rightarrow> real list" where
  "drow d name s darray q = map (\<lambda>b. d name (embedding (s q)) (embedding (s b))) darray"

text \<open>
  One row of the result of \<^verbatim>\<open>_match\<close>, as pairs of distance and target position.
\<close>

definition mem_row :: "(real \<times> real) option \<Rightarrow> nat \<Rightarrow> real list \<Rightarrow> (xreal \<times> nat) list" where
  "mem_row nrm k row =
     (let tk = top_k_row k row;
          vals = map fst tk;
          vals = (case nrm of
                    None \<Rightarrow> vals
                  | Some t_range \<Rightarrow> map (normalize_value t_range (row_min row, row_max row)) vals)
      in zip (map Fin vals) (map snd tk))"

text \<open>
  One row of what a batch starting at position \<open>i\<close> contributes in \<^verbatim>\<open>_match_online\<close>,
  the running best row after the batches at the given offsets, and one row of the
  final result.
\<close>

definition batch_row :: "(real \<times> real) option \<Rightarrow> nat \<Rightarrow> nat \<Rightarrow> real list \<Rightarrow> (xreal \<times> nat) list" where
  "batch_row nrm k i brow =
     (let tk = top_k_row k brow;
          vals = map fst tk;
          vals = (case nrm of
                    None \<Rightarrow> vals
                  | Some t_range \<Rightarrow> map (normalize_value t_range (row_min vals, row_max vals)) vals)
      in zip (map Fin vals) (map (\<lambda>j. i + j) (map snd tk)))"

definition online_acc ::
  "(real \<times> real) option \<Rightarrow> nat \<Rightarrow> nat \<Rightarrow> real list \<Rightarrow> nat list \<Rightarrow> (xreal \<times> nat) list
     \<Rightarrow> (xreal \<times> nat) list" where
  "online_acc nrm k bsize row offs acc =
     fold (\<lambda>i acc. merge_row k acc (batch_row nrm k i (take bsize (drop i row)))) offs acc"

definition online_row :: "(real \<times> real) option \<Rightarrow> nat \<Rightarrow> nat \<Rightarrow> real list \<Rightarrow> (xreal \<times> nat) list" where
  "online_row nrm k bsize row =
     sort_key fst (online_acc nrm k bsize row (py_range (length row) bsize) (replicate k (PInf, 0)))"

text \<open>
  The candidates of the target collection that the running best row of
  \<^verbatim>\<open>_match_online\<close> retains, sorted by distance: the final row without its
  placeholder columns.
\<close>

definition online_best :: "(real \<times> real) option \<Rightarrow> nat \<Rightarrow> nat \<Rightarrow> real list \<Rightarrow> (xreal \<times> nat) list" where
  "online_best nrm k bsize row =
     sort_key fst (online_acc nrm k bsize row (py_range (length row) bsize) [])"

text \<open>
  The pairs of \<^verbatim>\<open>zip(_ids, _dists)\<close> for a row, and the row the matcher selected by
  the arguments computes for a query.
\<close>

definition cands_of :: "(xreal \<times> nat) list \<Rightarrow> (nat \<times> xreal) list" where
  "cands_of row = map (\<lambda>p. (snd p, fst p)) row"

definition match_row ::
  "(string \<Rightarrow> embed \<Rightarrow> embed \<Rightarrow> real) \<Rightarrow> match_args \<Rightarrow> store \<Rightarrow> darray \<Rightarrow> nat \<Rightarrow> (xreal \<times> nat) list" where
  "match_row d a s darray q =
     (let row = drow d (chosen_name a) s darray q
      in case batch_size a of
           None \<Rightarrow> mem_row (normalization a) (min (inner_limit a darray) (length darray)) row
         | Some b \<Rightarrow> online_row (normalization a) (inner_limit a darray) (nat b) row)"

subsection \<open>Calls that reach the assembler\<close>

text \<open>
  A call that reaches the matcher and the assembler: both collections are
  non-empty, \<open>limit\<close> and \<open>batch_size\<close> pass validation, the provider chosen for the
  metric is pairwise and, for a batched call, the first target record has a dense
  embedding.
\<close>

definition matching_call ::
  "providers \<Rightarrow> match_args \<Rightarrow> store \<Rightarrow> darray \<Rightarrow> darray \<Rightarrow> (string \<Rightarrow> embed \<Rightarrow> embed \<Rightarrow> real) \<Rightarrow> bool" where
  "matching_call env a s self darray d =
     (self \<noteq> [] \<and> darray \<noteq> []
      \<and> chosen_cdist env a = Some (pairwise_cdist d)
      \<and> (case limit a of None \<Rightarrow> True | Some l \<Rightarrow> 0 < l)
      \<and> (case batch_size a of
            None \<Rightarrow> True
          | Some b \<Rightarrow> 0 < b \<and> (case embedding (s (hd darray)) of Dense _ \<Rightarrow> True | _ \<Rightarrow> False)))"

subsection \<open>Example data\<close>

text \<open>
  A pairwise metric on one-dimensional dense embeddings, the absolute difference,
  and a call with the default keyword arguments of \<^verbatim>\<open>match\<close>.
\<close>

definition abs_metric :: "string \<Rightarrow> embed \<Rightarrow> embed \<Rightarrow> real" where
  "abs_metric name x y = (case (x, y) of (Dense [u], Dense [v]) \<Rightarrow> \<bar>u - v\<bar> | _ \<Rightarrow> 0)"

definition ex_env :: providers where
  "ex_env = \<lparr>scipy_cdist = pairwise_cdist abs_metric, native_cdist = pairwise_cdist abs_metric\<rparr>"

definition ex_args :: match_args where
  "ex_args = \<lparr>metric = MetricName ''euclidean'', limit = Some 20, normalization = None,
     metric_name = None, batch_size = None, use_scipy = False, exclude_self = False,
     is_sparse = False, only_id = False\<rparr>"

definition no_doc :: doc where
  "no_doc = Doc [] NoEmbedding [] []"

text \<open>A query at address 0 and six target records at addresses 1 to 6.\<close>

definition ex_store :: store where
  "ex_store = (\<lambda>_. no_doc)
     (0 := Doc ''q'' (Dense [0]) [] [],
      1 := Doc ''a'' (Dense [5]) [] [],
      2 := Doc ''b'' (Dense [10]) [] [],
      3 := Doc ''c'' (Dense [7]) [] [],
      4 := Doc ''d'' (Dense [0]) [] [],
      5 := Doc ''e'' (Dense [1]) [] [],
      6 := Doc ''f'' (Dense [2]) [] [])"

text \<open>A query at address 0 that is also a target, and a target record that holds a match.\<close>
definition shared_store :: store where
  "shared_store = (\<lambda>_. no_doc)
     (0 := Doc ''q'' (Dense [0]) [] [Doc ''old'' NoEmbedding [] []],
      1 := Doc ''a'' (Dense [5]) [] [Doc ''z'' NoEmbedding [] []],
      2 := Doc ''b'' (Dense [3]) [] [])"

text \<open>A query whose match list already holds a match with the query's own id.\<close>

definition stale_store :: store where
  "stale_store = (\<lambda>_. no_doc)
     (0 := Doc ''q'' (Dense [0]) [] [Doc ''q'' NoEmbedding [(''euclidean'', Fin 0)] []])"

text \<open>
  The absolute difference on one-dimensional embeddings, dense or sparse, and a
  query with two target records whose embeddings are sparse.
\<close>

definition coord :: "embed \<Rightarrow> real" where
  "coord e = (case e of Dense [u] \<Rightarrow> u | Sparse [u] \<Rightarrow> u | _ \<Rightarrow> 0)"

definition coord_metric :: "string \<Rightarrow> embed \<Rightarrow> embed \<Rightarrow> real" where
  "coord_metric name x y = \<bar>coord x - coord y\<bar>"

definition sparse_store :: store where
  "sparse_store = (\<lambda>_. no_doc)
     (0 := Doc ''q'' (Sparse [0]) [] [],
      1 := Doc ''a'' (Sparse [3]) [] [],
      2 := Doc ''b'' (Sparse [1]) [] [])"

section \<open>The assembler\<close>

text \<open>
  While the loops of \<^verbatim>\<open>match\<close> run, the store changes only in the match lists of
  source documents, and a candidate whose id is in the source collection has its
  match list removed: what the loops read is what the initial store holds.
\<close>

lemma agree_refl: "agree lhv s s"
  by (simp add: agree_def)

lemma agree_id_in: "agree lhv s0 s \<Longrightarrow> id_in s i lhv = id_in s0 i lhv"
  by (simp add: agree_def id_in_def)

lemma agree_upd:
  "agree lhv s0 s \<Longrightarrow> q \<in> set lhv \<Longrightarrow> doc_id d = doc_id (s q) \<Longrightarrow> embedding d = embedding (s q)
     \<Longrightarrow> scores d = scores (s q) \<Longrightarrow> agree lhv s0 (s(q := d))"
  by (simp add: agree_def)

lemma resolve_agree:
  assumes "agree lhv s0 s"
  shows "resolve s lhv rhv oid i = resolve s0 lhv rhv oid i"
proof (cases oid)
  case True
  with assms show ?thesis
    by (simp add: resolve_def agree_id_in [OF assms] agree_def)
next
  case False
  show ?thesis
  proof (cases "id_in s0 (doc_id (s0 (rhv ! i))) lhv")
    case True
    with False assms show ?thesis
      by (simp add: resolve_def agree_id_in [OF assms] agree_def pop_matches_def Let_def)
  next
    case nin: False
    then have "rhv ! i \<notin> set lhv"
      by (auto simp: id_in_def)
    with assms have "s (rhv ! i) = s0 (rhv ! i)"
      by (simp add: agree_def)
    with False nin assms show ?thesis
      by (simp add: resolve_def agree_id_in [OF assms])
  qed
qed

lemma entry_agree: "agree lhv s0 s \<Longrightarrow> entry s lhv rhv oid name c = entry s0 lhv rhv oid name c"
  by (simp add: entry_def resolve_agree)

lemma keep_agree: "agree lhv s0 s \<Longrightarrow> keep s lhv rhv oid excl q c = keep s0 lhv rhv oid excl q c"
  by (simp add: keep_def resolve_agree) (simp add: agree_def)

lemma add_matches_nil: "add_matches d [] = d"
  by (cases d) (simp add: add_matches_def)

lemma attach_char:
  assumes "agree lhv s0 s" and "q \<in> set lhv" and "\<forall>c \<in> set cands. fst c < length rhv"
  shows "attach lhv rhv oid excl name stop q cands n s =
           (None, s(q := add_matches (s q)
                     (map (entry s0 lhv rhv oid name)
                        (take (max 1 (stop - n)) (filter (keep s0 lhv rhv oid excl q) cands)))))"
  using assms
proof (induction cands arbitrary: n s)
  case Nil
  then show ?case by (simp add: add_matches_nil)
next
  case (Cons c cands)
  obtain i dv where c: "c = (i, dv)" by (cases c)
  from Cons.prems c have i: "i < length rhv" by simp
  have rest: "\<forall>c \<in> set cands. fst c < length rhv" using Cons.prems by simp
  let ?d = "resolve s lhv rhv oid i"
  have d0: "?d = resolve s0 lhv rhv oid i"
    by (rule resolve_agree [OF Cons.prems(1)])
  have k: "keep s0 lhv rhv oid excl q c = (\<not> (doc_id ?d = doc_id (s q) \<and> excl))"
    using keep_agree [OF Cons.prems(1), of rhv oid excl q c] by (simp add: keep_def c)
  have e: "entry s0 lhv rhv oid name c = Doc (doc_id ?d) (embedding ?d) [(name, dv)] (matches ?d)"
    using entry_agree [OF Cons.prems(1), of rhv oid name c] by (simp add: entry_def c Let_def)
  show ?case
  proof (cases "keep s0 lhv rhv oid excl q c")
    case False
    with k have skip: "doc_id ?d = doc_id (s q) \<and> excl" by simp
    have flt: "filter (keep s0 lhv rhv oid excl q) (c # cands) = filter (keep s0 lhv rhv oid excl q) cands"
      using False by simp
    have "attach lhv rhv oid excl name stop q (c # cands) n s =
            attach lhv rhv oid excl name stop q cands n s"
      using skip i by (simp add: c resolve_def Let_def)
    also have "\<dots> = (None, s(q := add_matches (s q)
                     (map (entry s0 lhv rhv oid name)
                        (take (max 1 (stop - n)) (filter (keep s0 lhv rhv oid excl q) cands)))))"
      by (rule Cons.IH [OF Cons.prems(1) Cons.prems(2) rest])
    finally show ?thesis unfolding flt .
  next
    case True
    with k have nskip: "\<not> (doc_id ?d = doc_id (s q) \<and> excl)" by simp
    let ?s' = "s(q := append_match (s q) ?d [(name, dv)])"
    have flt: "filter (keep s0 lhv rhv oid excl q) (c # cands) = c # filter (keep s0 lhv rhv oid excl q) cands"
      using True by simp
    have ag: "agree lhv s0 ?s'"
      by (rule agree_upd [OF Cons.prems(1) Cons.prems(2)]) (simp_all add: append_match_def)
    have am: "append_match (s q) ?d [(name, dv)] = add_matches (s q) [entry s0 lhv rhv oid name c]"
      by (simp add: append_match_def add_matches_def e)
    show ?thesis
    proof (cases "stop \<le> n + 1")
      case le: True
      then have m: "max 1 (stop - n) = 1" by simp
      have A: "attach lhv rhv oid excl name stop q (c # cands) n s = (None, ?s')"
        using nskip i le by (simp add: c resolve_def Let_def)
      have tk: "map (entry s0 lhv rhv oid name)
                  (take (max 1 (stop - n)) (filter (keep s0 lhv rhv oid excl q) (c # cands))) =
                [entry s0 lhv rhv oid name c]"
        unfolding flt m by simp
      show ?thesis unfolding A tk am by (rule refl)
    next
      case gt: False
      then have m: "max 1 (stop - n) = Suc (max 1 (stop - (n + 1)))" by simp
      have "attach lhv rhv oid excl name stop q (c # cands) n s =
              attach lhv rhv oid excl name stop q cands (n + 1) ?s'"
        using nskip i gt by (simp add: c resolve_def Let_def)
      also have "\<dots> = (None, ?s'(q := add_matches (?s' q)
                     (map (entry s0 lhv rhv oid name)
                        (take (max 1 (stop - (n + 1))) (filter (keep s0 lhv rhv oid excl q) cands)))))"
        by (rule Cons.IH [OF ag Cons.prems(2) rest])
      finally have B: "attach lhv rhv oid excl name stop q (c # cands) n s =
          (None, ?s'(q := add_matches (?s' q)
                     (map (entry s0 lhv rhv oid name)
                        (take (max 1 (stop - (n + 1))) (filter (keep s0 lhv rhv oid excl q) cands)))))" .
      have tk: "map (entry s0 lhv rhv oid name)
                  (take (max 1 (stop - n)) (filter (keep s0 lhv rhv oid excl q) (c # cands))) =
                entry s0 lhv rhv oid name c # map (entry s0 lhv rhv oid name)
                  (take (max 1 (stop - (n + 1))) (filter (keep s0 lhv rhv oid excl q) cands))"
        unfolding flt m by simp
      have C: "add_matches (?s' q) (map (entry s0 lhv rhv oid name)
                  (take (max 1 (stop - (n + 1))) (filter (keep s0 lhv rhv oid excl q) cands))) =
               add_matches (s q) (entry s0 lhv rhv oid name c # map (entry s0 lhv rhv oid name)
                  (take (max 1 (stop - (n + 1))) (filter (keep s0 lhv rhv oid excl q) cands)))"
        by (simp add: am add_matches_def)
      show ?thesis unfolding B tk C by (simp only: fun_upd_upd)
    qed
  qed
qed


lemma assemble_char:
  assumes "agree lhv s0 s"
    and "\<forall>r \<in> set rows. fst r \<in> set lhv \<and> (\<forall>i \<in> set (fst (snd r)). i < length rhv)"
  shows "\<exists>s'. assemble lhv rhv oid excl name stop rows s = (None, s')
           \<and> agree lhv s0 s'
           \<and> (\<forall>a. a \<notin> fst ` set rows \<longrightarrow> s' a = s a)
           \<and> (\<forall>q \<in> fst ` set rows. \<exists>ids dists. (q, ids, dists) \<in> set rows
                 \<and> matches (s' q) = built s0 lhv rhv oid excl name stop q (zip ids dists))"
  using assms
proof (induction rows arbitrary: s)
  case Nil
  then show ?case by simp
next
  case (Cons r rows)
  obtain q ids dists where r: "r = (q, ids, dists)" by (cases r)
  from Cons.prems r have q: "q \<in> set lhv" and ids: "\<forall>i \<in> set ids. i < length rhv"
    by simp_all
  have rest: "\<forall>r \<in> set rows. fst r \<in> set lhv \<and> (\<forall>i \<in> set (fst (snd r)). i < length rhv)"
    using Cons.prems by simp
  let ?s1 = "s(q := clear_matches (s q))"
  have ag1: "agree lhv s0 ?s1"
    by (rule agree_upd [OF Cons.prems(1) q]) (simp_all add: clear_matches_def)
  have cb: "\<forall>c \<in> set (zip ids dists). fst c < length rhv"
    using ids by (auto dest: set_zip_leftD)
  let ?ms = "built s0 lhv rhv oid excl name stop q (zip ids dists)"
  let ?s2 = "?s1(q := add_matches (?s1 q) ?ms)"
  have at: "attach lhv rhv oid excl name stop q (zip ids dists) 0 ?s1 = (None, ?s2)"
    using attach_char [OF ag1 q cb, of oid excl name stop 0] by (simp add: built_def)
  have ag2: "agree lhv s0 ?s2"
    by (rule agree_upd [OF ag1 q]) (simp_all add: add_matches_def)
  have m2: "matches (?s2 q) = ?ms"
    by (simp add: add_matches_def clear_matches_def)
  from Cons.IH [OF ag2 rest] obtain s' where
    s': "assemble lhv rhv oid excl name stop rows ?s2 = (None, s')"
    and ag': "agree lhv s0 s'"
    and fr: "\<forall>a. a \<notin> fst ` set rows \<longrightarrow> s' a = ?s2 a"
    and ch: "\<forall>q \<in> fst ` set rows. \<exists>ids dists. (q, ids, dists) \<in> set rows
                 \<and> matches (s' q) = built s0 lhv rhv oid excl name stop q (zip ids dists)"
    by blast
  have run: "assemble lhv rhv oid excl name stop (r # rows) s = (None, s')"
    unfolding r assemble.simps at using s' by simp
  have frame: "\<forall>a. a \<notin> fst ` set (r # rows) \<longrightarrow> s' a = s a"
    using fr by (simp add: r)
  have char: "\<forall>p \<in> fst ` set (r # rows). \<exists>ids dists. (p, ids, dists) \<in> set (r # rows)
                 \<and> matches (s' p) = built s0 lhv rhv oid excl name stop p (zip ids dists)"
  proof
    fix p assume p: "p \<in> fst ` set (r # rows)"
    show "\<exists>ids dists. (p, ids, dists) \<in> set (r # rows)
                 \<and> matches (s' p) = built s0 lhv rhv oid excl name stop p (zip ids dists)"
    proof (cases "p \<in> fst ` set rows")
      case True
      with ch show ?thesis by fastforce
    next
      case False
      with p have pq: "p = q" by (simp add: r)
      from False fr have "s' p = ?s2 p" by blast
      with m2 pq have "matches (s' p) = ?ms" by simp
      with pq show ?thesis by (auto simp: r)
    qed
  qed
  from run ag' frame char show ?case by blast
qed

section \<open>The matchers under a pairwise provider\<close>

lemma length_mem_row_parts:
  "length (case nrm of None \<Rightarrow> vals | Some t \<Rightarrow> map (f t) vals) = length vals"
  by (cases nrm) simp_all

lemma map_snd_mem_row: "map snd (mem_row nrm k row) = map snd (top_k_row k row)"
  by (cases nrm) (simp_all add: mem_row_def Let_def)

lemma map_fst_mem_row:
  "map fst (mem_row nrm k row) =
     map Fin (case nrm of
                None \<Rightarrow> map fst (top_k_row k row)
              | Some t_range \<Rightarrow>
                  map (normalize_value t_range (row_min row, row_max row))
                    (map fst (top_k_row k row)))"
  by (cases nrm) (simp_all add: mem_row_def Let_def)

lemma priv_match_pairwise:
  assumes "darray \<noteq> []"
  shows "priv_match s self darray (pairwise_cdist d) k nrm name sp =
           Inr (map (\<lambda>q. map fst (mem_row nrm (min k (length darray)) (drow d name s darray q))) self,
                map (\<lambda>q. map snd (mem_row nrm (min k (length darray)) (drow d name s darray q))) self)"
proof (cases nrm)
  case None
  then show ?thesis
    by (simp add: priv_match_def pairwise_cdist_def top_k_def map_fst_mem_row map_snd_mem_row
        drow_def o_def)
next
  case (Some t)
  show ?thesis
    using assms Some
    by (simp add: priv_match_def pairwise_cdist_def top_k_def map_fst_mem_row map_snd_mem_row
        drow_def o_def minmax_normalize_def zip_map1 zip_map2 zip_same_conv_map image_iff Let_def)
qed

lemma online_step_pairwise:
  "online_step s (map (\<lambda>a. embedding (s a)) self) darray (pairwise_cdist d) k nrm name bsize i
       (map (\<lambda>q. map fst (g q)) self, map (\<lambda>q. map snd (g q)) self) =
     Inr (map (\<lambda>q. map fst (merge_row k (g q)
                 (batch_row nrm k i (take bsize (drop i (drow d name s darray q))))) ) self,
          map (\<lambda>q. map snd (merge_row k (g q)
                 (batch_row nrm k i (take bsize (drop i (drow d name s darray q))))) ) self)"
proof (cases nrm)
  case None
  then show ?thesis
    by (simp add: online_step_def pairwise_cdist_def top_k_def update_rows_x_mat_best_def
        batch_row_def drow_def o_def Let_def zip_map1 zip_map2 zip_same_conv_map
        zip_map_fst_snd take_map drop_map)
next
  case (Some t)
  then show ?thesis
    by (simp add: online_step_def pairwise_cdist_def top_k_def update_rows_x_mat_best_def
        batch_row_def drow_def o_def Let_def zip_map1 zip_map2 zip_same_conv_map
        zip_map_fst_snd take_map drop_map minmax_normalize_def)
qed

lemma online_loop_pairwise:
  "online_loop (online_step s (map (\<lambda>a. embedding (s a)) self) darray (pairwise_cdist d) k nrm
                  name bsize) offs
       (map (\<lambda>q. map fst (g q)) self, map (\<lambda>q. map snd (g q)) self) =
     Inr (map (\<lambda>q. map fst (online_acc nrm k bsize (drow d name s darray q) offs (g q))) self,
          map (\<lambda>q. map snd (online_acc nrm k bsize (drow d name s darray q) offs (g q))) self)"
proof (induction offs arbitrary: g)
  case Nil
  then show ?case by (simp add: online_acc_def)
next
  case (Cons i offs)
  show ?case
    unfolding online_loop.simps online_step_pairwise
    by (simp add: Cons.IH online_acc_def)
qed

lemma priv_match_online_pairwise:
  assumes "darray = a0 # rest" and "embedding (s a0) = Dense v" and "0 < bsize"
  shows "priv_match_online s self darray (pairwise_cdist d) k nrm name bsize =
           Inr (map (\<lambda>q. map fst (online_row nrm k bsize (drow d name s darray q))) self,
                map (\<lambda>q. map snd (online_row nrm k bsize (drow d name s darray q))) self)"
proof -
  have init: "(replicate (length self) (replicate k PInf), replicate (length self) (replicate k 0)) =
      (map (\<lambda>q. map fst (replicate k (PInf, 0::nat))) self,
       map (\<lambda>q. map snd (replicate k (PInf, 0::nat))) self)"
    by (simp add: map_replicate_const)
  have len: "\<And>q. length (drow d name s darray q) = length darray"
    by (simp add: drow_def)
  show ?thesis
    using assms(3)
    unfolding priv_match_online_def assms(1) list.case assms(2) embed.case Let_def length_map
      init online_loop_pairwise
    by (simp add: online_row_def len [unfolded assms(1)] o_def zip_map1 zip_map2
        zip_same_conv_map zip_map_fst_snd)
qed

lemma zip_snd_fst: "zip (map snd xs) (map fst xs) = cands_of xs"
  by (induction xs) (simp_all add: cands_of_def)

lemma set_top_k_row: "set (top_k_row k row) \<subseteq> set (zip row [0..<length row])"
  using set_take_subset [of k "sort_key fst (zip row [0..<length row])"]
  by (simp add: top_k_row_def)

lemma top_k_row_bound: "p \<in> set (top_k_row k row) \<Longrightarrow> snd p < length row \<and> row ! snd p = fst p"
proof -
  assume "p \<in> set (top_k_row k row)"
  then have "p \<in> set (zip row [0..<length row])"
    using set_top_k_row by blast
  then obtain n where "n < length row" "p = (row ! n, n)"
    by (auto simp: set_zip)
  then show ?thesis by simp
qed

lemma mem_row_bound: "p \<in> set (mem_row nrm k row) \<Longrightarrow> snd p < length row"
proof -
  assume "p \<in> set (mem_row nrm k row)"
  then have "snd p \<in> set (map snd (mem_row nrm k row))" by simp
  then have "snd p \<in> snd ` set (top_k_row k row)" by (simp add: map_snd_mem_row)
  then show ?thesis using top_k_row_bound by fastforce
qed

lemma merge_row_set: "set (merge_row k acc new) \<subseteq> set acc \<union> set new"
  using set_take_subset [of k "sort_key fst (acc @ new)"] by (simp add: merge_row_def)

lemma batch_row_bound:
  assumes "p \<in> set (batch_row nrm k i (take bsize (drop i row)))"
  shows "snd p < length row"
proof -
  let ?b = "take bsize (drop i row)"
  from assms have "snd p \<in> set (map snd (batch_row nrm k i ?b))" by simp
  also have "map snd (batch_row nrm k i ?b) = map (\<lambda>j. i + j) (map snd (top_k_row k ?b))"
    by (cases nrm) (simp_all add: batch_row_def Let_def)
  finally obtain p' where p': "p' \<in> set (top_k_row k ?b)" "snd p = i + snd p'"
    by auto
  from top_k_row_bound [OF p'(1)] have "snd p' < length ?b" by simp
  with p'(2) show ?thesis by auto
qed

lemma online_acc_bound:
  assumes "\<forall>p \<in> set acc. snd p < m" and "length row \<le> m"
  shows "\<forall>p \<in> set (online_acc nrm k bsize row offs acc). snd p < m"
  using assms(1)
proof (induction offs arbitrary: acc)
  case Nil
  then show ?case by (simp add: online_acc_def)
next
  case (Cons i offs)
  let ?acc' = "merge_row k acc (batch_row nrm k i (take bsize (drop i row)))"
  have "\<forall>p \<in> set ?acc'. snd p < m"
  proof
    fix p assume "p \<in> set ?acc'"
    then have "p \<in> set acc \<or> p \<in> set (batch_row nrm k i (take bsize (drop i row)))"
      using merge_row_set by blast
    then show "snd p < m"
      using Cons.prems batch_row_bound [of p nrm k i bsize row] assms(2) by auto
  qed
  from Cons.IH [OF this] show ?case by (simp add: online_acc_def)
qed

lemma online_row_bound:
  assumes "row \<noteq> []" and "p \<in> set (online_row nrm k bsize row)"
  shows "snd p < length row"
proof -
  have "\<forall>p \<in> set (replicate k (PInf, 0::nat)). snd p < length row"
    using assms(1) by simp
  from online_acc_bound [OF this order_refl] assms(2) show ?thesis
    by (simp add: online_row_def)
qed

lemma match_row_bound:
  assumes "darray \<noteq> []" and "p \<in> set (match_row d a s darray q)"
  shows "snd p < length darray"
proof -
  have len: "length (drow d (chosen_name a) s darray q) = length darray"
    by (simp add: drow_def)
  then have ne: "drow d (chosen_name a) s darray q \<noteq> []"
    using assms(1) by auto
  show ?thesis
  proof (cases "batch_size a")
    case None
    with assms(2) have "p \<in> set (mem_row (normalization a)
        (min (inner_limit a darray) (length darray)) (drow d (chosen_name a) s darray q))"
      by (simp add: match_row_def)
    from mem_row_bound [OF this] len show ?thesis by simp
  next
    case (Some b)
    with assms(2) have "p \<in> set (online_row (normalization a) (inner_limit a darray) (nat b)
        (drow d (chosen_name a) s darray q))"
      by (simp add: match_row_def)
    from online_row_bound [OF ne this] len show ?thesis by simp
  qed
qed

lemma match_pairwise:
  assumes "self \<noteq> []" and "darray \<noteq> []"
    and "chosen_cdist env a = Some (pairwise_cdist d)"
    and "case limit a of None \<Rightarrow> True | Some l \<Rightarrow> 0 < l"
    and "case batch_size a of None \<Rightarrow> True
         | Some b \<Rightarrow> 0 < b \<and> (case embedding (s (hd darray)) of Dense _ \<Rightarrow> True | _ \<Rightarrow> False)"
  shows "\<exists>s'. match env s self darray a = (None, s')
           \<and> agree self s s'
           \<and> (\<forall>q \<in> set self. matches (s' q) =
                 built s self darray (only_id a) (exclude_self a) (chosen_name a)
                   (stop_limit a darray) q (cands_of (match_row d a s darray q)))"
proof -
  let ?name = "chosen_name a"
  let ?R = "match_row d a s darray"
  have matcher: "(case batch_size a of
            Some b \<Rightarrow> priv_match_online s self darray (pairwise_cdist d) (inner_limit a darray)
                        (normalization a) ?name (nat b)
          | None \<Rightarrow> priv_match s self darray (pairwise_cdist d) (inner_limit a darray)
                      (normalization a) ?name (is_sparse a)) =
       Inr (map (\<lambda>q. map fst (?R q)) self, map (\<lambda>q. map snd (?R q)) self)"
  proof (cases "batch_size a")
    case None
    then show ?thesis
      using priv_match_pairwise [OF assms(2)] by (simp add: match_row_def)
  next
    case (Some b)
    with assms(5) have b: "0 < nat b" and "case embedding (s (hd darray)) of Dense _ \<Rightarrow> True | _ \<Rightarrow> False"
      by simp_all
    then obtain v where v: "embedding (s (hd darray)) = Dense v"
      by (cases "embedding (s (hd darray))") simp_all
    from assms(2) obtain a0 rest where da: "darray = a0 # rest"
      by (cases darray) simp_all
    from v da have v': "embedding (s a0) = Dense v" by simp
    from Some show ?thesis
      using priv_match_online_pairwise [where s = s and bsize = "nat b", OF da v' b] by (simp add: match_row_def)
  qed
  let ?rows = "zip self (zip (map (\<lambda>q. map snd (?R q)) self) (map (\<lambda>q. map fst (?R q)) self))"
  have rows: "?rows = map (\<lambda>q. (q, map snd (?R q), map fst (?R q))) self"
    by (simp add: zip_map1 zip_map2 zip_same_conv_map o_def)
  have ok: "\<forall>r \<in> set ?rows. fst r \<in> set self \<and> (\<forall>i \<in> set (fst (snd r)). i < length darray)"
    unfolding rows using match_row_bound [OF assms(2)] by auto
  from assemble_char [OF agree_refl ok, of "only_id a" "exclude_self a" ?name "stop_limit a darray"]
  obtain s' where
    run: "assemble self darray (only_id a) (exclude_self a) ?name (stop_limit a darray) ?rows s = (None, s')"
    and ag: "agree self s s'"
    and ch: "\<forall>q \<in> fst ` set ?rows. \<exists>ids dists. (q, ids, dists) \<in> set ?rows
               \<and> matches (s' q) = built s self darray (only_id a) (exclude_self a) ?name
                     (stop_limit a darray) q (zip ids dists)"
    by blast
  have m: "match env s self darray a = (None, s')"
    using assms(1,2,3,4,5) run matcher
    by (auto simp: match_def Let_def split: option.splits)
  have "\<forall>q \<in> set self. matches (s' q) =
          built s self darray (only_id a) (exclude_self a) ?name (stop_limit a darray) q
            (cands_of (?R q))"
  proof
    fix q assume q: "q \<in> set self"
    then have "q \<in> fst ` set ?rows" unfolding rows by force
    with ch obtain ids dists where in_rows: "(q, ids, dists) \<in> set ?rows"
      and mt: "matches (s' q) = built s self darray (only_id a) (exclude_self a) ?name
                     (stop_limit a darray) q (zip ids dists)"
      by blast
    from in_rows have "ids = map snd (?R q)" "dists = map fst (?R q)"
      unfolding rows by auto
    with mt show "matches (s' q) =
          built s self darray (only_id a) (exclude_self a) ?name (stop_limit a darray) q
            (cands_of (?R q))"
      by (simp add: zip_snd_fst)
  qed
  with m ag show ?thesis by blast
qed

section \<open>Self-exclusion and detached copies\<close>

lemma match_call:
  assumes "matching_call env a s self darray d"
  shows "\<exists>s'. match env s self darray a = (None, s')
           \<and> agree self s s'
           \<and> (\<forall>q \<in> set self. matches (s' q) =
                 built s self darray (only_id a) (exclude_self a) (chosen_name a)
                   (stop_limit a darray) q (cands_of (match_row d a s darray q)))"
  using assms unfolding matching_call_def by (intro match_pairwise) simp_all

lemma doc_id_resolve: "doc_id (resolve s lhv rhv oid i) = doc_id (s (rhv ! i))"
  by (simp add: resolve_def pop_matches_def Let_def)

lemma matches_resolve:
  "matches (resolve s lhv rhv oid i) =
     (if oid \<or> id_in s (doc_id (s (rhv ! i))) lhv then [] else matches (s (rhv ! i)))"
  by (simp add: resolve_def pop_matches_def Let_def)

lemma doc_id_entry: "doc_id (entry s lhv rhv oid name c) = doc_id (s (rhv ! fst c))"
  by (simp add: entry_def doc_id_resolve Let_def)

lemma matches_entry:
  "matches (entry s lhv rhv oid name c) =
     (if oid \<or> id_in s (doc_id (s (rhv ! fst c))) lhv then [] else matches (s (rhv ! fst c)))"
  by (simp add: entry_def matches_resolve Let_def)

lemma scores_entry: "scores (entry s lhv rhv oid name c) = [(name, snd c)]"
  by (simp add: entry_def Let_def)

lemma built_elem:
  assumes "m \<in> set (built s lhv rhv oid excl name stop q cands)"
  shows "\<exists>c \<in> set cands. keep s lhv rhv oid excl q c \<and> m = entry s lhv rhv oid name c"
proof -
  from assms obtain c where "c \<in> set (take (max 1 stop) (filter (keep s lhv rhv oid excl q) cands))"
    and m: "m = entry s lhv rhv oid name c"
    by (auto simp: built_def)
  then have "c \<in> set (filter (keep s lhv rhv oid excl q) cands)"
    by (blast dest: in_set_takeD)
  with m show ?thesis by auto
qed

text \<open>
  C4, as amended: a call with \<open>exclude_self\<close> set that reaches the assembler (both
  collections non-empty, \<open>limit\<close> and \<open>batch_size\<close> valid, a pairwise provider and,
  when batched, a dense embedding on the first target record) returns without
  raising, and afterwards no source record's match list contains a match whose
  id is the record's own id.
\<close>

theorem match_exclude_self:
  assumes "matching_call env a s self darray d" and "exclude_self a" and "q \<in> set self"
    and "m \<in> set (matches (snd (match env s self darray a) q))"
  shows "fst (match env s self darray a) = None
       \<and> doc_id m \<noteq> doc_id (snd (match env s self darray a) q)"
proof -
  from match_call [OF assms(1)] obtain s' where run: "match env s self darray a = (None, s')"
    and ag: "agree self s s'"
    and ch: "\<forall>q \<in> set self. matches (s' q) =
                 built s self darray (only_id a) (exclude_self a) (chosen_name a)
                   (stop_limit a darray) q (cands_of (match_row d a s darray q))"
    by blast
  from assms(4) run ch assms(3) have "m \<in> set (built s self darray (only_id a) (exclude_self a)
      (chosen_name a) (stop_limit a darray) q (cands_of (match_row d a s darray q)))"
    by simp
  from built_elem [OF this] obtain c where
    k: "keep s self darray (only_id a) (exclude_self a) q c"
    and m: "m = entry s self darray (only_id a) (chosen_name a) c"
    by blast
  from k assms(2) have "doc_id (s (darray ! fst c)) \<noteq> doc_id (s q)"
    by (simp add: keep_def doc_id_resolve)
  moreover from ag have "doc_id (s' q) = doc_id (s q)"
    by (simp add: agree_def)
  ultimately show ?thesis using run m by (simp add: doc_id_entry)
qed

theorem match_exclude_self_witness:
  "matching_call ex_env (ex_args\<lparr>exclude_self := True\<rparr>) shared_store [0, 1, 2] [0, 1, 2] abs_metric
   \<and> fst (match ex_env shared_store [0, 1, 2] [0, 1, 2] (ex_args\<lparr>exclude_self := True\<rparr>)) = None
   \<and> doc_id (hd (matches (snd (match ex_env shared_store [0, 1, 2] [0, 1, 2]
                               (ex_args\<lparr>exclude_self := True\<rparr>)) 0)))
       \<noteq> doc_id (snd (match ex_env shared_store [0, 1, 2] [0, 1, 2]
                         (ex_args\<lparr>exclude_self := True\<rparr>)) 0)"
proof -
  let ?a = "ex_args\<lparr>exclude_self := True\<rparr>"
  have call: "matching_call ex_env ?a shared_store [0, 1, 2] [0, 1, 2] abs_metric"
    by (simp add: matching_call_def ex_args_def ex_env_def chosen_cdist_def)
  have excl: "exclude_self ?a"
    by (simp add: ex_args_def)
  have q: "(0::nat) \<in> set [0, 1, 2]"
    by simp
  have m: "hd (matches (snd (match ex_env shared_store [0, 1, 2] [0, 1, 2] ?a) 0))
             \<in> set (matches (snd (match ex_env shared_store [0, 1, 2] [0, 1, 2] ?a) 0))"
    by code_simp
  from match_exclude_self [OF call excl q m] call show ?thesis
    by simp
qed

text \<open>
  With an empty target collection the call returns before any match list is
  cleared: a match with the query's own id that the list held before the call is
  still there after it.
\<close>

theorem match_stale_self_match_counterexample:
  "match ex_env stale_store [0] [] (ex_args\<lparr>exclude_self := True\<rparr>) = (None, stale_store)
   \<and> doc_id (hd (matches (snd (match ex_env stale_store [0] []
                                  (ex_args\<lparr>exclude_self := True\<rparr>)) 0)))
       = doc_id (snd (match ex_env stale_store [0] [] (ex_args\<lparr>exclude_self := True\<rparr>)) 0)"
  by (simp add: match_def ex_args_def stale_store_def)

text \<open>
  C3, as amended: every match the call attaches whose id is present in the source
  collection carries an empty match list, and with \<open>only_id\<close> so does every match
  the call attaches.
\<close>

theorem match_shared_record_detached:
  assumes "matching_call env a s self darray d" and "q \<in> set self"
    and "m \<in> set (matches (snd (match env s self darray a) q))"
    and "id_in s (doc_id m) self \<or> only_id a"
  shows "matches m = []"
proof -
  from match_call [OF assms(1)] obtain s' where run: "match env s self darray a = (None, s')"
    and ch: "\<forall>q \<in> set self. matches (s' q) =
                 built s self darray (only_id a) (exclude_self a) (chosen_name a)
                   (stop_limit a darray) q (cands_of (match_row d a s darray q))"
    by blast
  from assms(3) run ch assms(2) have "m \<in> set (built s self darray (only_id a) (exclude_self a)
      (chosen_name a) (stop_limit a darray) q (cands_of (match_row d a s darray q)))"
    by simp
  from built_elem [OF this] obtain c where
    m: "m = entry s self darray (only_id a) (chosen_name a) c"
    by blast
  from assms(4) show ?thesis
    unfolding m matches_entry doc_id_entry by auto
qed

theorem match_shared_record_detached_witness:
  "matching_call ex_env ex_args shared_store [0] [0, 1] abs_metric
   \<and> id_in shared_store
        (doc_id (hd (matches (snd (match ex_env shared_store [0] [0, 1] ex_args) 0)))) [0]
   \<and> matches (hd (matches (snd (match ex_env shared_store [0] [0, 1] ex_args) 0))) = []"
proof -
  have call: "matching_call ex_env ex_args shared_store [0] [0, 1] abs_metric"
    by (simp add: matching_call_def ex_args_def ex_env_def chosen_cdist_def)
  have q: "(0::nat) \<in> set [0]"
    by simp
  have m: "hd (matches (snd (match ex_env shared_store [0] [0, 1] ex_args) 0))
             \<in> set (matches (snd (match ex_env shared_store [0] [0, 1] ex_args) 0))"
    by code_simp
  have i: "id_in shared_store
             (doc_id (hd (matches (snd (match ex_env shared_store [0] [0, 1] ex_args) 0)))) [0]"
    by code_simp
  from match_shared_record_detached [OF call q m disjI1 [OF i]] call i show ?thesis
    by simp
qed

text \<open>
  The source \<open>[q]\<close> and the target \<open>[q, a]\<close> share the record \<open>q\<close>; the target
  record \<open>a\<close>, whose id is not in the source, is attached with the match it holds.
\<close>

theorem match_nested_matches_counterexample:
  "matches (snd (match ex_env shared_store [0] [0, 1] ex_args) 0) =
     [Doc ''q'' (Dense [0]) [(''euclidean'', Fin 0)] [],
      Doc ''a'' (Dense [5]) [(''euclidean'', Fin 5)] [Doc ''z'' NoEmbedding [] []]]"
  by code_simp

section \<open>Normalization in the in-memory matcher\<close>

lemma map_insort_key: "map f (insort_key f x xs) = insort (f x) (map f xs)"
  by (induction xs) simp_all

lemma map_sort_key: "map f (sort_key f xs) = sort (map f xs)"
  by (induction xs) (simp_all add: map_insort_key)

lemma map_fst_top_k_row: "map fst (top_k_row k row) = take k (sort row)"
  by (simp add: top_k_row_def take_map [symmetric] map_sort_key)

lemma row_min_Min: "row \<noteq> [] \<Longrightarrow> row_min row = Min (set row)"
proof (cases row)
  case (Cons x xs)
  then show ?thesis using Min.set_eq_fold [of x xs] by simp
qed simp

lemma row_max_Max: "row \<noteq> [] \<Longrightarrow> row_max row = Max (set row)"
proof (cases row)
  case (Cons x xs)
  then show ?thesis using Max.set_eq_fold [of x xs] by simp
qed simp

text \<open>
  C5: with a normalization range, \<^verbatim>\<open>_match\<close> returns, for each row of the distance
  matrix, the \<open>k\<close> smallest distances of the row rescaled with the minimum and the
  maximum of the whole row, where \<open>k\<close> is the limit clamped to the size of the
  target collection.
\<close>

theorem priv_match_normalizes_with_full_row:
  assumes "cdist sp (map (\<lambda>a. embedding (s a)) self) (map (\<lambda>a. embedding (s a)) darray) name
             = Inr dists"
    and "[] \<notin> set dists"
  shows "priv_match s self darray cdist k (Some t_range) name sp =
           Inr (map (\<lambda>row. map (\<lambda>v. Fin (normalize_value t_range (Min (set row), Max (set row)) v))
                              (take (min k (length darray)) (sort row))) dists,
                map (\<lambda>row. map snd (top_k_row (min k (length darray)) row)) dists)"
proof -
  have "minmax_normalize (map (\<lambda>row. map fst (top_k_row (min k (length darray)) row)) dists)
          t_range (Some (map row_min dists, map row_max dists)) =
        map (\<lambda>row. map (normalize_value t_range (Min (set row), Max (set row)))
                     (take (min k (length darray)) (sort row))) dists"
  proof -
    have "\<And>row. row \<in> set dists \<Longrightarrow> row_min row = Min (set row) \<and> row_max row = Max (set row)"
      using assms(2) row_min_Min row_max_Max by metis
    then show ?thesis
      by (simp add: minmax_normalize_def zip_map1 zip_map2 zip_same_conv_map o_def
          map_fst_top_k_row)
  qed
  then show ?thesis
    using assms by (simp add: priv_match_def top_k_def Let_def o_def)
qed

theorem priv_match_normalizes_with_full_row_witness:
  "priv_match ex_store [0] [1, 2, 3, 4, 5, 6] (pairwise_cdist abs_metric) 2 (Some (0, 1))
     ''euclidean'' False = Inr ([[Fin 0, Fin (1 / 10)]], [[3, 4]])"
proof -
  have d: "pairwise_cdist abs_metric False (map (\<lambda>a. embedding (ex_store a)) [0])
             (map (\<lambda>a. embedding (ex_store a)) [1, 2, 3, 4, 5, 6]) ''euclidean''
           = Inr [[5, 10, 7, 0, 1, 2]]"
    by (simp add: pairwise_cdist_def abs_metric_def ex_store_def)
  have ne: "[] \<notin> set [[5, 10, 7, 0, 1, 2::real]]"
    by simp
  show ?thesis
    unfolding priv_match_normalizes_with_full_row
      [where cdist = "pairwise_cdist abs_metric" and s = ex_store and sp = False, OF d ne]
    by (simp add: top_k_row_def)
qed

section \<open>Length and order of a match list\<close>

lemma sorted_map_mono:
  assumes "\<And>x y. x \<le> y \<Longrightarrow> f x \<le> f y" and "sorted xs"
  shows "sorted (map f xs)"
  using assms(2) by (induction xs) (auto intro: assms(1))

lemma normalize_value_mono:
  assumes "lo \<le> hi" and "mn \<le> mx" and "v \<le> w"
  shows "normalize_value (lo, hi) (mn, mx) v \<le> normalize_value (lo, hi) (mn, mx) w"
proof (cases "mx = mn")
  case True
  then show ?thesis by simp
next
  case False
  with assms(2) have pos: "0 < mx - mn" by simp
  from assms(1,3) have "(v - mn) * (hi - lo) \<le> (w - mn) * (hi - lo)"
    by (intro mult_right_mono) simp_all
  with pos have "(v - mn) * (hi - lo) / (mx - mn) \<le> (w - mn) * (hi - lo) / (mx - mn)"
    by (simp add: divide_right_mono)
  with False show ?thesis by simp
qed

lemma row_min_le_row_max: "row_min row \<le> row_max row"
proof (cases row)
  case Nil
  then show ?thesis by simp
next
  case (Cons x xs)
  then have ne: "row \<noteq> []" by simp
  have "Min (set row) \<le> x" using Cons by simp
  moreover have "x \<le> Max (set row)" using Cons by simp
  ultimately show ?thesis by (simp add: row_min_Min [OF ne] row_max_Max [OF ne])
qed

lemma sorted_map_Fin: "sorted xs \<Longrightarrow> sorted (map Fin xs)"
  by (rule sorted_map_mono) simp_all

lemma sorted_mem_row:
  assumes "case nrm of None \<Rightarrow> True | Some t \<Rightarrow> fst t \<le> snd t"
  shows "sorted (map fst (mem_row nrm k row))"
proof (cases nrm)
  case None
  then show ?thesis
    by (simp add: map_fst_mem_row map_fst_top_k_row sorted_map_Fin sorted_wrt_take)
next
  case (Some t)
  obtain lo hi where t: "t = (lo, hi)" by (cases t)
  with assms Some have le: "lo \<le> hi" by simp
  have "sorted (map (normalize_value (lo, hi) (row_min row, row_max row)) (take k (sort row)))"
  proof (rule sorted_map_mono)
    fix x y :: real
    assume "x \<le> y"
    then show "normalize_value (lo, hi) (row_min row, row_max row) x
             \<le> normalize_value (lo, hi) (row_min row, row_max row) y"
      by (rule normalize_value_mono [OF le row_min_le_row_max])
  next
    show "sorted (take k (sort row))"
      by (simp add: sorted_wrt_take)
  qed
  then have "sorted (map Fin (map (normalize_value (lo, hi) (row_min row, row_max row))
      (take k (sort row))))"
    by (rule sorted_map_Fin)
  then show ?thesis
    unfolding map_fst_mem_row Some t option.case map_fst_top_k_row .
qed

lemma sorted_online_row: "sorted (map fst (online_row nrm k bsize row))"
  by (simp add: online_row_def)

lemma map_snd_cands_of: "map snd (cands_of row) = map fst row"
  by (simp add: cands_of_def o_def)

lemma score_of_entry: "score_of name (entry s lhv rhv oid name c) = Some (snd c)"
  by (simp add: score_of_def scores_entry)

lemma scores_built:
  "map (\<lambda>m. the (score_of name m)) (built s lhv rhv oid excl name stop q cands) =
     map snd (take (max 1 stop) (filter (keep s lhv rhv oid excl q) cands))"
  by (simp add: built_def o_def score_of_entry)

lemma sorted_scores_built:
  assumes "sorted (map snd cands)"
  shows "sorted (map (\<lambda>m. the (score_of name m)) (built s lhv rhv oid excl name stop q cands))"
proof -
  have "sorted (map snd (filter (keep s lhv rhv oid excl q) cands))"
    by (rule sorted_filter [OF assms])
  then have "sorted (take (max 1 stop) (map snd (filter (keep s lhv rhv oid excl q) cands)))"
    by (rule sorted_wrt_take)
  then show ?thesis
    by (simp add: scores_built take_map)
qed

lemma length_built: "length (built s lhv rhv oid excl name stop q cands) \<le> max 1 stop"
  by (simp add: built_def)

lemma stop_limit_nat: "limit a = Some (real L) \<Longrightarrow> 0 < L \<Longrightarrow> stop_limit a darray = L"
  by (simp add: stop_limit_def int_limit_def)

text \<open>
  C2, as amended: after a call with \<open>limit = L\<close>, a positive integer, on non-empty
  collections, every source record holds at most \<open>L\<close> matches, and their scores
  under the metric's name are in ascending order, equal scores allowed, provided
  the call is batched, or has no normalization range, or has a range with
  \<open>lo \<le> hi\<close>.
\<close>

theorem match_at_most_limit_sorted:
  assumes "matching_call env a s self darray d"
    and "limit a = Some (real L)" and "0 < L"
    and "batch_size a = None \<longrightarrow> (case normalization a of None \<Rightarrow> True | Some t \<Rightarrow> fst t \<le> snd t)"
    and "q \<in> set self"
  shows "fst (match env s self darray a) = None
       \<and> length (matches (snd (match env s self darray a) q)) \<le> L
       \<and> sorted (map (\<lambda>m. the (score_of (chosen_name a) m))
                  (matches (snd (match env s self darray a) q)))"
proof -
  from match_call [OF assms(1)] obtain s' where run: "match env s self darray a = (None, s')"
    and ch: "\<forall>q \<in> set self. matches (s' q) =
                 built s self darray (only_id a) (exclude_self a) (chosen_name a)
                   (stop_limit a darray) q (cands_of (match_row d a s darray q))"
    by blast
  from ch assms(5) have ms: "matches (s' q) =
      built s self darray (only_id a) (exclude_self a) (chosen_name a) L q
        (cands_of (match_row d a s darray q))"
    by (simp add: stop_limit_nat [OF assms(2,3)])
  have len: "length (matches (s' q)) \<le> L"
    unfolding ms using length_built [of s self darray "only_id a" "exclude_self a" "chosen_name a" L q]
      assms(3) by (simp add: max_def split: if_splits)
  have "sorted (map fst (match_row d a s darray q))"
  proof (cases "batch_size a")
    case None
    with assms(4) show ?thesis
      by (simp add: match_row_def sorted_mem_row)
  next
    case (Some b)
    then show ?thesis
      by (simp add: match_row_def sorted_online_row)
  qed
  then have "sorted (map snd (cands_of (match_row d a s darray q)))"
    by (simp add: map_snd_cands_of)
  from sorted_scores_built [OF this] have "sorted (map (\<lambda>m. the (score_of (chosen_name a) m))
      (matches (s' q)))"
    unfolding ms .
  with run len show ?thesis by simp
qed

theorem match_at_most_limit_sorted_witness:
  "matching_call ex_env (ex_args\<lparr>limit := Some 2\<rparr>) ex_store [5] [1, 2, 3, 4, 6] abs_metric
   \<and> fst (match ex_env ex_store [5] [1, 2, 3, 4, 6] (ex_args\<lparr>limit := Some 2\<rparr>)) = None
   \<and> length (matches (snd (match ex_env ex_store [5] [1, 2, 3, 4, 6]
                             (ex_args\<lparr>limit := Some 2\<rparr>)) 5)) \<le> 2
   \<and> sorted (map (\<lambda>m. the (score_of ''euclidean'' m))
              (matches (snd (match ex_env ex_store [5] [1, 2, 3, 4, 6]
                              (ex_args\<lparr>limit := Some 2\<rparr>)) 5)))"
proof -
  let ?a = "ex_args\<lparr>limit := Some 2\<rparr>"
  have call: "matching_call ex_env ?a ex_store [5] [1, 2, 3, 4, 6] abs_metric"
    by (simp add: matching_call_def ex_args_def ex_env_def chosen_cdist_def)
  have l: "limit ?a = Some (real 2)"
    by (simp add: ex_args_def)
  have n: "batch_size ?a = None \<longrightarrow> (case normalization ?a of None \<Rightarrow> True | Some t \<Rightarrow> fst t \<le> snd t)"
    by (simp add: ex_args_def)
  have nm: "chosen_name ?a = ''euclidean''"
    by (simp add: chosen_name_def ex_args_def)
  from match_at_most_limit_sorted [OF call l _ n, of 5] call show ?thesis
    by (simp add: nm)
qed

text \<open>
  Two target records at the same distance from the query carry equal scores, and
  the in-memory matcher with the range \<open>(1, 0)\<close> emits the scores in descending
  order.
\<close>

theorem match_not_strictly_ascending_counterexample:
  "matches (snd (match ex_env ex_store [5] [4, 6] ex_args) 5) =
     [Doc ''d'' (Dense [0]) [(''euclidean'', Fin 1)] [],
      Doc ''f'' (Dense [2]) [(''euclidean'', Fin 1)] []]
   \<and> matches (snd (match ex_env ex_store [0] [1, 2] (ex_args\<lparr>normalization := Some (1, 0)\<rparr>)) 0) =
     [Doc ''a'' (Dense [5]) [(''euclidean'', Fin 1)] [],
      Doc ''b'' (Dense [10]) [(''euclidean'', Fin 0)] []]"
  by code_simp

section \<open>Sorting and keeping the smallest\<close>

lemma take_insort_key_take:
  "take k (insort_key f x (take k ys)) = take k (insort_key f x ys)"
proof (induction ys arbitrary: k)
  case Nil
  then show ?case by simp
next
  case (Cons y ys)
  show ?case
  proof (cases k)
    case 0
    then show ?thesis by simp
  next
    case (Suc n)
    show ?thesis
    proof (cases "f x \<le> f y")
      case True
      then show ?thesis by (cases n) (simp_all add: Suc)
    next
      case False
      then show ?thesis using Cons.IH [of n] by (simp add: Suc)
    qed
  qed
qed

lemma sort_key_append_left:
  "sort_key f (a @ b) = foldr (insort_key f) a (sort_key f b)"
  by (induction a) simp_all

lemma take_foldr_insort_take:
  "take k (foldr (insort_key f) a (take k ys)) = take k (foldr (insort_key f) a ys)"
proof (induction a)
  case Nil
  then show ?case by simp
next
  case (Cons x a)
  have "take k (insort_key f x (foldr (insort_key f) a (take k ys))) =
        take k (insort_key f x (take k (foldr (insort_key f) a (take k ys))))"
    by (simp add: take_insort_key_take)
  also have "\<dots> = take k (insort_key f x (take k (foldr (insort_key f) a ys)))"
    by (simp add: Cons.IH)
  also have "\<dots> = take k (insort_key f x (foldr (insort_key f) a ys))"
    by (simp add: take_insort_key_take)
  finally show ?case by simp
qed

lemma sorted_take_sort_key: "sorted (map f (take k (sort_key f b)))"
  by (simp add: take_map [symmetric] sorted_wrt_take)

lemma take_sort_key_append_take:
  "take k (sort_key f (a @ take k (sort_key f b))) = take k (sort_key f (a @ b))"
proof -
  have "sort_key f (take k (sort_key f b)) = take k (sort_key f b)"
    by (rule sort_key_id_if_sorted [OF sorted_take_sort_key])
  then show ?thesis
    by (simp add: sort_key_append_left take_foldr_insort_take)
qed

lemma sort_mset_cong: "mset xs = mset ys \<Longrightarrow> sort xs = sort ys"
  by (metis sorted_list_of_multiset_mset)

lemma take_sort_take_append:
  "take k (sort (take k (sort a) @ b)) = take k (sort (a @ (b :: 'a::linorder list)))"
proof -
  have "sort (take k (sort a) @ b) = sort (b @ take k (sort a))"
    by (rule sort_mset_cong) simp
  moreover have "sort (a @ b) = sort (b @ a)"
    by (rule sort_mset_cong) simp
  ultimately show ?thesis
    by (simp add: take_sort_key_append_take)
qed

lemma insort_map_Fin: "insort (Fin x) (map Fin xs) = map Fin (insort x xs)"
  by (induction xs) simp_all

lemma sort_map_Fin: "sort (map Fin xs) = map Fin (sort xs)"
  by (induction xs) (simp_all add: insort_map_Fin)

section \<open>Placeholder columns of the online matcher\<close>

lemma le_PInf [simp]: "x \<le> PInf"
  by (cases x) simp_all

lemma sort_key_with_pad:
  assumes "\<forall>p \<in> set F. fst p \<noteq> PInf" and "\<forall>p \<in> set N. fst p \<noteq> PInf"
  shows "sort_key fst (F @ replicate r (PInf, 0::nat) @ N) =
           sort_key fst (F @ N) @ replicate r (PInf, 0)"
proof (rule properties_for_sort_key)
  show "mset (sort_key fst (F @ N) @ replicate r (PInf, 0::nat)) =
        mset (F @ replicate r (PInf, 0) @ N)"
    by simp
next
  show "sorted (map fst (sort_key fst (F @ N) @ replicate r (PInf, 0::nat)))"
    by (simp add: sorted_append)
next
  fix p :: "xreal \<times> nat"
  assume "p \<in> set (sort_key fst (F @ N) @ replicate r (PInf, 0))"
  show "filter (\<lambda>x. fst p = fst x) (sort_key fst (F @ N) @ replicate r (PInf, 0)) =
        filter (\<lambda>x. fst p = fst x) (F @ replicate r (PInf, 0) @ N)"
  proof (cases "fst p = PInf")
    case True
    have "filter (\<lambda>x. fst p = fst x) (sort_key fst (F @ N)) = []"
      using assms True by (auto simp: filter_empty_conv)
    moreover have "filter (\<lambda>x. fst p = fst x) F = []" "filter (\<lambda>x. fst p = fst x) N = []"
      using assms True by (auto simp: filter_empty_conv)
    ultimately show ?thesis by simp
  next
    case False
    have st: "filter (\<lambda>x. fst p = fst x) (sort_key fst (F @ N)) = filter (\<lambda>x. fst p = fst x) (F @ N)"
      using sort_key_stable [of fst "fst p" "F @ N"] by (simp add: eq_commute)
    have "filter (\<lambda>x. fst p = fst x) (replicate r (PInf, 0::nat)) = []"
      using False by (simp add: filter_empty_conv)
    with st show ?thesis by simp
  qed
qed

lemma length_merge_row: "length (merge_row k a b) = min k (length a + length b)"
  by (simp add: merge_row_def)

lemma merge_row_pad:
  assumes "\<forall>p \<in> set F. fst p \<noteq> PInf" and "\<forall>p \<in> set N. fst p \<noteq> PInf"
    and "k \<le> length F + r"
  shows "merge_row k (F @ replicate r (PInf, 0)) N =
           merge_row k F N @ replicate (k - length (merge_row k F N)) (PInf, 0)"
proof -
  have "merge_row k (F @ replicate r (PInf, 0)) N =
        take k (sort_key fst (F @ N) @ replicate r (PInf, 0))"
    by (simp add: merge_row_def sort_key_with_pad [OF assms(1,2)])
  also have "\<dots> = merge_row k F N @ replicate (min r (k - (length F + length N))) (PInf, 0)"
    by (simp add: merge_row_def)
  also have "min r (k - (length F + length N)) = k - length (merge_row k F N)"
    using assms(3) by (simp add: length_merge_row)
  finally show ?thesis .
qed

lemma map_fst_batch_row:
  "map fst (batch_row nrm k i brow) =
     map Fin (case nrm of
                None \<Rightarrow> map fst (top_k_row k brow)
              | Some t \<Rightarrow> map (normalize_value t (row_min (map fst (top_k_row k brow)),
                                                  row_max (map fst (top_k_row k brow))))
                            (map fst (top_k_row k brow)))"
  by (cases nrm) (simp_all add: batch_row_def Let_def)

lemma map_snd_batch_row:
  "map snd (batch_row nrm k i brow) = map (\<lambda>j. i + j) (map snd (top_k_row k brow))"
  by (cases nrm) (simp_all add: batch_row_def Let_def)

lemma batch_row_finite: "p \<in> set (batch_row nrm k i brow) \<Longrightarrow> fst p \<noteq> PInf"
proof -
  assume "p \<in> set (batch_row nrm k i brow)"
  then have "fst p \<in> set (map fst (batch_row nrm k i brow))" by simp
  then show ?thesis unfolding map_fst_batch_row by auto
qed

lemma length_top_k_row: "length (top_k_row k row) = min k (length row)"
  by (simp add: top_k_row_def)

lemma length_batch_row: "length (batch_row nrm k i brow) = min k (length brow)"
  using arg_cong [OF map_snd_batch_row [of nrm k i brow], of length]
  by (simp add: length_top_k_row)

lemma merge_row_finite:
  assumes "\<forall>p \<in> set F. fst p \<noteq> PInf" and "\<forall>p \<in> set N. fst p \<noteq> PInf"
  shows "\<forall>p \<in> set (merge_row k F N). fst p \<noteq> PInf"
  using assms merge_row_set [of k F N] by blast

lemma online_acc_finite:
  assumes "\<forall>p \<in> set F. fst p \<noteq> PInf"
  shows "\<forall>p \<in> set (online_acc nrm k bsize row offs F). fst p \<noteq> PInf"
  using assms
proof (induction offs arbitrary: F)
  case Nil
  then show ?case by (simp add: online_acc_def)
next
  case (Cons i offs)
  have "\<forall>p \<in> set (merge_row k F (batch_row nrm k i (take bsize (drop i row)))). fst p \<noteq> PInf"
    by (rule merge_row_finite [OF Cons.prems]) (simp add: batch_row_finite)
  from Cons.IH [OF this] show ?case by (simp add: online_acc_def)
qed

lemma online_acc_pad:
  assumes "\<forall>p \<in> set F. fst p \<noteq> PInf" and "length F \<le> k"
  shows "online_acc nrm k bsize row offs (F @ replicate (k - length F) (PInf, 0)) =
           online_acc nrm k bsize row offs F
             @ replicate (k - length (online_acc nrm k bsize row offs F)) (PInf, 0)"
  using assms
proof (induction offs arbitrary: F)
  case Nil
  then show ?case by (simp add: online_acc_def)
next
  case (Cons i offs)
  let ?N = "batch_row nrm k i (take bsize (drop i row))"
  let ?F' = "merge_row k F ?N"
  have N: "\<forall>p \<in> set ?N. fst p \<noteq> PInf"
    by (simp add: batch_row_finite)
  have le: "k \<le> length F + (k - length F)"
    by simp
  have step: "merge_row k (F @ replicate (k - length F) (PInf, 0)) ?N =
              ?F' @ replicate (k - length ?F') (PInf, 0)"
    by (rule merge_row_pad [OF Cons.prems(1) N le])
  have F': "\<forall>p \<in> set ?F'. fst p \<noteq> PInf"
    by (rule merge_row_finite [OF Cons.prems(1) N])
  have len: "length ?F' \<le> k"
    by (simp add: length_merge_row)
  have "online_acc nrm k bsize row (i # offs) (F @ replicate (k - length F) (PInf, 0)) =
        online_acc nrm k bsize row offs (?F' @ replicate (k - length ?F') (PInf, 0))"
    by (simp add: online_acc_def step)
  also have "\<dots> = online_acc nrm k bsize row offs ?F'
             @ replicate (k - length (online_acc nrm k bsize row offs ?F')) (PInf, 0)"
    by (rule Cons.IH [OF F' len])
  finally show ?case by (simp add: online_acc_def)
qed

lemma online_row_pad:
  "online_row nrm k bsize row =
     online_best nrm k bsize row @ replicate (k - length (online_best nrm k bsize row)) (PInf, 0)"
proof -
  let ?F = "online_acc nrm k bsize row (py_range (length row) bsize) []"
  have fin: "\<forall>p \<in> set ?F. fst p \<noteq> PInf"
    by (rule online_acc_finite) simp
  have "online_acc nrm k bsize row (py_range (length row) bsize) (replicate k (PInf, 0)) =
        ?F @ replicate (k - length ?F) (PInf, 0)"
    using online_acc_pad [of "[]" k nrm bsize row "py_range (length row) bsize"] by simp
  then have "online_row nrm k bsize row = sort_key fst (?F @ replicate (k - length ?F) (PInf, 0) @ [])"
    by (simp add: online_row_def)
  also have "\<dots> = sort_key fst (?F @ []) @ replicate (k - length ?F) (PInf, 0)"
    by (rule sort_key_with_pad [OF fin]) simp
  finally show ?thesis by (simp add: online_best_def)
qed

lemma online_best_finite: "p \<in> set (online_best nrm k bsize row) \<Longrightarrow> fst p \<noteq> PInf"
  using online_acc_finite [of "[]" nrm k bsize row "py_range (length row) bsize"]
  by (simp add: online_best_def)

section \<open>The batch loop\<close>

lemma range_offset_less:
  assumes "0 < (b::nat)" and "j < (m + b - 1) div b"
  shows "j * b < m"
proof -
  from assms(2) have "Suc j \<le> (m + b - 1) div b" by simp
  with assms(1) have "Suc j * b \<le> m + b - 1"
    by (simp add: less_eq_div_iff_mult_less_eq)
  with assms(1) show ?thesis by simp
qed

lemma range_covers:
  assumes "0 < (b::nat)"
  shows "m \<le> ((m + b - 1) div b) * b"
proof -
  have "(m + b - 1) mod b < b" using assms by simp
  moreover have "((m + b - 1) div b) * b + (m + b - 1) mod b = m + b - 1"
    by simp
  ultimately show ?thesis using assms by linarith
qed

lemma py_range_Suc:
  "map (\<lambda>j. j * b) [0..<Suc j] = map (\<lambda>j. j * b) [0..<j] @ [j * b]"
  by simp

lemma online_acc_snoc:
  "online_acc nrm k bsize row (offs @ [i]) acc =
     merge_row k (online_acc nrm k bsize row offs acc) (batch_row nrm k i (take bsize (drop i row)))"
  by (simp add: online_acc_def)

lemma distinct_map_snd_sort_key:
  assumes "distinct (map snd xs)"
  shows "distinct (map snd (sort_key f xs))"
proof -
  have "mset (map snd (sort_key f xs)) = mset (map snd xs)"
    by simp
  from mset_eq_imp_distinct_iff [OF this] assms show ?thesis by simp
qed

lemma distinct_map_snd_merge_row:
  assumes "distinct (map snd (F @ N))"
  shows "distinct (map snd (merge_row k F N))"
proof -
  have "distinct (take k (map snd (sort_key fst (F @ N))))"
    by (rule distinct_take [OF distinct_map_snd_sort_key [OF assms]])
  then show ?thesis by (simp add: merge_row_def take_map)
qed

lemma distinct_map_snd_top_k_row: "distinct (map snd (top_k_row k row))"
proof -
  have "distinct (map snd (zip row [0..<length row]))"
    by simp
  then have "distinct (take k (map snd (sort_key fst (zip row [0..<length row]))))"
    by (intro distinct_take distinct_map_snd_sort_key)
  then show ?thesis by (simp add: top_k_row_def take_map)
qed

lemma distinct_map_shift: "distinct xs \<Longrightarrow> distinct (map (\<lambda>j. i + j) (xs :: nat list))"
  by (simp add: distinct_map inj_on_def)

lemma distinct_map_snd_batch_row: "distinct (map snd (batch_row nrm k i brow))"
  unfolding map_snd_batch_row
  by (rule distinct_map_shift [OF distinct_map_snd_top_k_row])

lemma batch_row_range:
  assumes "p \<in> set (batch_row nrm k i (take bsize (drop i row)))"
  shows "i \<le> snd p \<and> snd p < min (length row) (i + bsize)"
proof -
  let ?b = "take bsize (drop i row)"
  from assms have "snd p \<in> set (map snd (batch_row nrm k i ?b))" by simp
  then obtain p' where p': "p' \<in> set (top_k_row k ?b)" "snd p = i + snd p'"
    unfolding map_snd_batch_row by auto
  from top_k_row_bound [OF p'(1)] have "snd p' < length ?b" by simp
  with p'(2) show ?thesis by auto
qed

text \<open>The running best row after the first \<open>j\<close> batches, without placeholders.\<close>

lemma online_acc_invariant:
  assumes "0 < bsize" and "j \<le> (length row + bsize - 1) div bsize"
  shows "length (online_acc nrm k bsize row (map (\<lambda>j. j * bsize) [0..<j]) [])
           = min k (min (length row) (j * bsize))
       \<and> distinct (map snd (online_acc nrm k bsize row (map (\<lambda>j. j * bsize) [0..<j]) []))
       \<and> (\<forall>p \<in> set (online_acc nrm k bsize row (map (\<lambda>j. j * bsize) [0..<j]) []).
             snd p < min (length row) (j * bsize))"
  using assms(2)
proof (induction j)
  case 0
  then show ?case by (simp add: online_acc_def)
next
  case (Suc j)
  let ?i = "j * bsize"
  let ?F = "online_acc nrm k bsize row (map (\<lambda>j. j * bsize) [0..<j]) []"
  let ?N = "batch_row nrm k ?i (take bsize (drop ?i row))"
  from Suc.prems have jlt: "j < (length row + bsize - 1) div bsize" by simp
  from range_offset_less [OF assms(1) jlt] have i: "?i < length row" .
  from Suc.IH jlt i have len: "length ?F = min k ?i"
    and dist: "distinct (map snd ?F)"
    and bnd: "\<forall>p \<in> set ?F. snd p < ?i"
    by simp_all
  have step: "online_acc nrm k bsize row (map (\<lambda>j. j * bsize) [0..<Suc j]) [] = merge_row k ?F ?N"
    unfolding py_range_Suc online_acc_snoc ..
  have lenN: "length ?N = min k (min bsize (length row - ?i))"
    by (simp add: length_batch_row)
  have l: "length (merge_row k ?F ?N) = min k (min (length row) (Suc j * bsize))"
    using i by (simp add: length_merge_row len lenN)
  have rng: "\<forall>p \<in> set ?N. ?i \<le> snd p \<and> snd p < min (length row) (Suc j * bsize)"
    using batch_row_range [of _ nrm k ?i bsize row] by (simp add: add.commute)
  have "set (map snd ?F) \<inter> set (map snd ?N) = {}"
    using bnd rng by fastforce
  then have "distinct (map snd (?F @ ?N))"
    using dist distinct_map_snd_batch_row [of nrm k ?i] by simp
  then have d: "distinct (map snd (merge_row k ?F ?N))"
    by (rule distinct_map_snd_merge_row)
  have b: "\<forall>p \<in> set (merge_row k ?F ?N). snd p < min (length row) (Suc j * bsize)"
  proof
    fix p assume "p \<in> set (merge_row k ?F ?N)"
    then have "p \<in> set ?F \<or> p \<in> set ?N"
      using merge_row_set by blast
    then show "snd p < min (length row) (Suc j * bsize)"
      using bnd rng i by fastforce
  qed
  from l d b show ?case unfolding step by blast
qed

lemma online_best_props:
  assumes "0 < bsize"
  shows "length (online_best nrm k bsize row) = min k (length row)"
    and "distinct (map snd (online_best nrm k bsize row))"
    and "\<forall>p \<in> set (online_best nrm k bsize row). snd p < length row"
proof -
  let ?n = "(length row + bsize - 1) div bsize"
  have cov: "min (length row) (?n * bsize) = length row"
    using range_covers [OF assms, of "length row"] by simp
  from online_acc_invariant [OF assms order_refl, where row = row and nrm = nrm and k = k]
  have inv: "length (online_acc nrm k bsize row (py_range (length row) bsize) []) = min k (length row)"
    "distinct (map snd (online_acc nrm k bsize row (py_range (length row) bsize) []))"
    "\<forall>p \<in> set (online_acc nrm k bsize row (py_range (length row) bsize) []). snd p < length row"
    unfolding py_range_def cov by simp_all
  show "length (online_best nrm k bsize row) = min k (length row)"
    using inv(1) by (simp add: online_best_def)
  show "distinct (map snd (online_best nrm k bsize row))"
    unfolding online_best_def by (rule distinct_map_snd_sort_key [OF inv(2)])
  show "\<forall>p \<in> set (online_best nrm k bsize row). snd p < length row"
    using inv(3) by (simp add: online_best_def)
qed

section \<open>An effective limit beyond the target collection\<close>

lemma keep_no_exclude: "keep s lhv rhv oid False q c"
  by (simp add: keep_def)

lemma cands_of_append: "cands_of (xs @ ys) = cands_of xs @ cands_of ys"
  by (simp add: cands_of_def)

lemma cands_of_replicate: "cands_of (replicate n (v, i)) = replicate n (i, v)"
  by (simp add: cands_of_def)

lemma length_cands_of: "length (cands_of xs) = length xs"
  by (simp add: cands_of_def)

lemma online_row_overflow:
  assumes "0 < bsize" and "length row < k"
  shows "online_row nrm k bsize row =
           online_best nrm k bsize row @ replicate (k - length row) (PInf, 0)"
    and "length (online_best nrm k bsize row) = length row"
proof -
  show l: "length (online_best nrm k bsize row) = length row"
    using online_best_props(1) [OF assms(1), of nrm k row] assms(2) by simp
  show "online_row nrm k bsize row =
           online_best nrm k bsize row @ replicate (k - length row) (PInf, 0)"
    using online_row_pad [of nrm k bsize row] by (simp add: l)
qed

text \<open>
  C10, as amended: in a batched call whose effective limit exceeds the number of
  target records, each row of the arrays the online matcher returns has as many
  columns as the effective limit; the first columns, one per target record, hold
  finite distances and every other column holds the distance \<open>PInf\<close> and the index
  0. With \<open>exclude_self\<close> off the assembler attaches every column: each source
  record ends with as many matches as the limit, and the matches after the first
  ones, one per target record, refer to the record at target position 0 with the
  score \<open>PInf\<close>.
\<close>

theorem online_placeholders:
  assumes "matching_call env a s self darray d"
    and "batch_size a = Some b"
    and "length darray < inner_limit a darray"
    and "q \<in> set self"
  shows "\<exists>dst idx.
           priv_match_online s self darray (pairwise_cdist d) (inner_limit a darray)
             (normalization a) (chosen_name a) (nat b) = Inr (dst, idx)
         \<and> (\<forall>row \<in> set dst. length row = inner_limit a darray
               \<and> PInf \<notin> set (take (length darray) row)
               \<and> drop (length darray) row = replicate (inner_limit a darray - length darray) PInf)
         \<and> (\<forall>row \<in> set idx. length row = inner_limit a darray
               \<and> drop (length darray) row = replicate (inner_limit a darray - length darray) 0)
         \<and> (\<not> exclude_self a \<longrightarrow>
               fst (match env s self darray a) = None
             \<and> length (matches (snd (match env s self darray a) q)) = inner_limit a darray
             \<and> (\<forall>x \<in> set (drop (length darray) (matches (snd (match env s self darray a) q))).
                   doc_id x = doc_id (s (darray ! 0))
                 \<and> score_of (chosen_name a) x = Some PInf))"
proof -
  let ?k = "inner_limit a darray"
  let ?m = "length darray"
  let ?nrm = "normalization a"
  let ?name = "chosen_name a"
  let ?row = "\<lambda>q. drow d ?name s darray q"
  let ?G = "\<lambda>q. online_best ?nrm ?k (nat b) (?row q)"
  from assms(1,2) have b: "0 < nat b" and ne: "darray \<noteq> []"
    and dense: "case embedding (s (hd darray)) of Dense _ \<Rightarrow> True | _ \<Rightarrow> False"
    by (simp_all add: matching_call_def)
  from ne obtain a0 rest where da: "darray = a0 # rest" by (cases darray) simp_all
  from dense da obtain v where v: "embedding (s a0) = Dense v"
    by (cases "embedding (s a0)") simp_all
  have len: "\<And>q. length (?row q) = ?m" by (simp add: drow_def)
  have row: "\<And>q. online_row ?nrm ?k (nat b) (?row q) = ?G q @ replicate (?k - ?m) (PInf, 0)"
    using online_row_overflow(1) [OF b, of "?row _" ?k ?nrm] assms(3) by (simp add: len)
  have lenG: "\<And>q. length (?G q) = ?m"
    using online_row_overflow(2) [OF b, of "?row _" ?k ?nrm] assms(3) by (simp add: len)
  have finG: "\<And>q. PInf \<notin> set (map fst (?G q))"
    using online_best_finite by fastforce
  let ?dst = "map (\<lambda>q. map fst (online_row ?nrm ?k (nat b) (?row q))) self"
  let ?idx = "map (\<lambda>q. map snd (online_row ?nrm ?k (nat b) (?row q))) self"
  have run: "priv_match_online s self darray (pairwise_cdist d) ?k ?nrm ?name (nat b) = Inr (?dst, ?idx)"
    by (rule priv_match_online_pairwise [where s = s, OF da v b])
  have dst: "\<forall>row \<in> set ?dst. length row = ?k \<and> PInf \<notin> set (take ?m row)
               \<and> drop ?m row = replicate (?k - ?m) PInf"
    using assms(3) finG by (auto simp: row lenG)
  have idx: "\<forall>row \<in> set ?idx. length row = ?k \<and> drop ?m row = replicate (?k - ?m) 0"
    using assms(3) by (auto simp: row lenG)
  have asm: "fst (match env s self darray a) = None
             \<and> length (matches (snd (match env s self darray a) q)) = ?k
             \<and> (\<forall>x \<in> set (drop ?m (matches (snd (match env s self darray a) q))).
                   doc_id x = doc_id (s (darray ! 0)) \<and> score_of ?name x = Some PInf)"
    if nex: "\<not> exclude_self a"
  proof -
    from match_call [OF assms(1)] obtain s' where m: "match env s self darray a = (None, s')"
      and ch: "\<forall>q \<in> set self. matches (s' q) =
                 built s self darray (only_id a) (exclude_self a) ?name
                   (stop_limit a darray) q (cands_of (match_row d a s darray q))"
      by blast
    have mr: "match_row d a s darray q = ?G q @ replicate (?k - ?m) (PInf, 0)"
      using assms(2) by (simp add: match_row_def row)
    have lc: "length (cands_of (match_row d a s darray q)) = ?k"
      using assms(3) by (simp add: mr length_cands_of lenG)
    have stop: "?k \<le> max 1 (stop_limit a darray)"
      using nex by (auto simp: stop_limit_def inner_limit_def split: option.splits)
    have "matches (s' q) = map (entry s self darray (only_id a) ?name)
                              (cands_of (match_row d a s darray q))"
      using ch assms(4) nex stop lc by (simp add: built_def keep_no_exclude)
    then have ms: "matches (s' q) =
        map (entry s self darray (only_id a) ?name) (cands_of (?G q))
        @ replicate (?k - ?m) (entry s self darray (only_id a) ?name (0, PInf))"
      by (simp add: mr cands_of_append cands_of_replicate)
    have "length (matches (s' q)) = ?k"
      using assms(3) by (simp add: ms length_cands_of lenG)
    moreover have "drop ?m (matches (s' q)) =
        replicate (?k - ?m) (entry s self darray (only_id a) ?name (0, PInf))"
      by (simp add: ms length_cands_of lenG)
    ultimately show ?thesis
      using m by (simp add: doc_id_entry score_of_entry)
  qed
  from run dst idx asm show ?thesis by blast
qed

theorem online_placeholders_witness:
  "matching_call ex_env (ex_args\<lparr>limit := Some 3, batch_size := Some 1\<rparr>) ex_store [0] [1, 2] abs_metric
   \<and> length [1, 2::nat] < inner_limit (ex_args\<lparr>limit := Some 3, batch_size := Some 1\<rparr>) [1, 2]
   \<and> length (matches (snd (match ex_env ex_store [0] [1, 2]
                             (ex_args\<lparr>limit := Some 3, batch_size := Some 1\<rparr>)) 0)) = 3
   \<and> doc_id (matches (snd (match ex_env ex_store [0] [1, 2]
                  (ex_args\<lparr>limit := Some 3, batch_size := Some 1\<rparr>)) 0) ! 2) = ''a''
   \<and> score_of ''euclidean'' (matches (snd (match ex_env ex_store [0] [1, 2]
                  (ex_args\<lparr>limit := Some 3, batch_size := Some 1\<rparr>)) 0) ! 2) = Some PInf"
proof -
  let ?a = "ex_args\<lparr>limit := Some 3, batch_size := Some 1\<rparr>"
  have call: "matching_call ex_env ?a ex_store [0] [1, 2] abs_metric"
    by (simp add: matching_call_def ex_args_def ex_env_def chosen_cdist_def ex_store_def)
  have bs: "batch_size ?a = Some 1"
    by (simp add: ex_args_def)
  have k: "inner_limit ?a [1, 2] = 3"
    by (simp add: inner_limit_def int_limit_def ex_args_def)
  have lt: "length [1, 2::nat] < inner_limit ?a [1, 2]"
    unfolding k by simp
  have q: "(0::nat) \<in> set [0]"
    by simp
  have l2: "length [1, 2::nat] = 2"
    by simp
  have nex: "\<not> exclude_self ?a"
    by (simp add: ex_args_def)
  have nm: "chosen_name ?a = ''euclidean''"
    by (simp add: chosen_name_def ex_args_def)
  have t0: "doc_id (ex_store ([1, 2] ! 0)) = ''a''"
    by (simp add: ex_store_def)
  from online_placeholders [OF call bs lt q] nex
  have "length (matches (snd (match ex_env ex_store [0] [1, 2] ?a) 0)) = inner_limit ?a [1, 2]
      \<and> (\<forall>x \<in> set (drop (length [1, 2::nat]) (matches (snd (match ex_env ex_store [0] [1, 2] ?a) 0))).
             doc_id x = doc_id (ex_store ([1, 2] ! 0)) \<and> score_of (chosen_name ?a) x = Some PInf)"
    by blast
  then have "length (matches (snd (match ex_env ex_store [0] [1, 2] ?a) 0)) = 3
      \<and> (\<forall>x \<in> set (drop 2 (matches (snd (match ex_env ex_store [0] [1, 2] ?a) 0))).
             doc_id x = ''a'' \<and> score_of ''euclidean'' x = Some PInf)"
    unfolding k nm t0 l2 .
  then have len: "length (matches (snd (match ex_env ex_store [0] [1, 2] ?a) 0)) = 3"
    and all: "\<forall>x \<in> set (drop 2 (matches (snd (match ex_env ex_store [0] [1, 2] ?a) 0))).
             doc_id x = ''a'' \<and> score_of ''euclidean'' x = Some PInf"
    by blast+
  from len have "drop 2 (matches (snd (match ex_env ex_store [0] [1, 2] ?a) 0)) ! 0
      \<in> set (drop 2 (matches (snd (match ex_env ex_store [0] [1, 2] ?a) 0)))"
    by (intro nth_mem) simp
  with len have "matches (snd (match ex_env ex_store [0] [1, 2] ?a) 0) ! 2
      \<in> set (drop 2 (matches (snd (match ex_env ex_store [0] [1, 2] ?a) 0)))"
    by simp
  with all have "doc_id (matches (snd (match ex_env ex_store [0] [1, 2] ?a) 0) ! 2) = ''a''
      \<and> score_of ''euclidean'' (matches (snd (match ex_env ex_store [0] [1, 2] ?a) 0) ! 2) = Some PInf"
    by blast
  with call lt len show ?thesis
    by blast
qed

text \<open>
  With \<open>exclude_self\<close> on, \<open>limit = 1\<close> and one target record that is not the
  query, the effective limit 2 exceeds the size of the target; the online matcher
  returns one placeholder column, and the assembler stops after the first match
  without attaching it.
\<close>

theorem online_placeholder_not_attached_counterexample:
  "priv_match_online ex_store [0] [1] (pairwise_cdist abs_metric) 2 None ''euclidean'' 1
     = Inr ([[Fin 5, PInf]], [[0, 0]])
   \<and> matches (snd (match ex_env ex_store [0] [1]
        (ex_args\<lparr>limit := Some 1, batch_size := Some 1, exclude_self := True\<rparr>)) 0)
     = [Doc ''a'' (Dense [5]) [(''euclidean'', Fin 5)] []]"
  by code_simp

section \<open>The limit under self-exclusion\<close>

lemma length_mem_row: "length (mem_row nrm k row) = min k (length row)"
  using arg_cong [OF map_snd_mem_row [of nrm k row], of length]
  by (simp add: length_top_k_row)

lemma match_row_full:
  assumes "darray \<noteq> []"
    and "case batch_size a of None \<Rightarrow> True | Some b \<Rightarrow> 0 < b"
    and "inner_limit a darray \<le> length darray"
  shows "length (match_row d a s darray q) = inner_limit a darray"
    and "distinct (map snd (match_row d a s darray q))"
proof -
  let ?row = "drow d (chosen_name a) s darray q"
  have len: "length ?row = length darray" by (simp add: drow_def)
  show "length (match_row d a s darray q) = inner_limit a darray"
  proof (cases "batch_size a")
    case None
    then show ?thesis
      using assms(3) by (simp add: match_row_def length_mem_row len)
  next
    case (Some b)
    with assms(2) have b: "0 < nat b" by simp
    have "length (online_best (normalization a) (inner_limit a darray) (nat b) ?row)
            = inner_limit a darray"
      using online_best_props(1) [OF b, of "normalization a" "inner_limit a darray" ?row] assms(3)
      by (simp add: len)
    then show ?thesis
      using Some online_row_pad [of "normalization a" "inner_limit a darray" "nat b" ?row]
      by (simp add: match_row_def)
  qed
  show "distinct (map snd (match_row d a s darray q))"
  proof (cases "batch_size a")
    case None
    then show ?thesis
      by (simp add: match_row_def map_snd_mem_row distinct_map_snd_top_k_row del: distinct_map)
  next
    case (Some b)
    with assms(2) have b: "0 < nat b" by simp
    have l: "length (online_best (normalization a) (inner_limit a darray) (nat b) ?row)
            = inner_limit a darray"
      using online_best_props(1) [OF b, of "normalization a" "inner_limit a darray" ?row] assms(3)
      by (simp add: len)
    have "online_row (normalization a) (inner_limit a darray) (nat b) ?row =
          online_best (normalization a) (inner_limit a darray) (nat b) ?row"
      using online_row_pad [of "normalization a" "inner_limit a darray" "nat b" ?row]
      by (simp add: l)
    then show ?thesis
      using Some online_best_props(2) [OF b, of "normalization a" "inner_limit a darray" ?row]
      by (simp add: match_row_def del: distinct_map)
  qed
qed

lemma length_filter_unique:
  assumes "distinct (map g xs)"
  shows "length (filter (\<lambda>c. g c = x) xs) \<le> 1"
  using assms
proof (induction xs)
  case Nil
  then show ?case by simp
next
  case (Cons c xs)
  show ?case
  proof (cases "g c = x")
    case True
    from Cons.prems have "g c \<notin> g ` set xs"
      by simp
    with True have "\<forall>y \<in> set xs. g y \<noteq> x"
      by (auto simp: image_iff)
    then have "filter (\<lambda>c. g c = x) xs = []"
      by (simp add: filter_empty_conv)
    with True show ?thesis by simp
  next
    case False
    with Cons show ?thesis by simp
  qed
qed

lemma distinct_map_nth:
  assumes "distinct ys" and "distinct is" and "\<forall>i \<in> set is. i < length ys"
  shows "distinct (map (\<lambda>i. ys ! i) is)"
  using assms by (auto simp: distinct_map inj_on_def nth_eq_iff_index_eq)

lemma map_fst_cands_of: "map fst (cands_of row) = map snd row"
  by (simp add: cands_of_def o_def)

text \<open>
  C7: with \<open>exclude_self\<close> set and \<open>limit = L\<close>, the matcher is asked for \<open>L + 1\<close>
  candidates, and when the ids of the target collection are unique and it holds
  at least \<open>L + 1\<close> records (the query's record and \<open>L\<close> others, for one), every
  source record ends with exactly \<open>L\<close> matches, none of which has the record's
  own id.
\<close>

theorem match_exclude_self_keeps_limit:
  assumes "matching_call env a s self darray d"
    and "exclude_self a"
    and "limit a = Some (real L)" and "0 < L"
    and "distinct (map (\<lambda>x. doc_id (s x)) darray)"
    and "L + 1 \<le> length darray"
    and "q \<in> set self"
  shows "inner_limit a darray = L + 1
       \<and> fst (match env s self darray a) = None
       \<and> length (matches (snd (match env s self darray a) q)) = L
       \<and> (\<forall>x \<in> set (matches (snd (match env s self darray a) q)). doc_id x \<noteq> doc_id (s q))"
proof -
  have k: "inner_limit a darray = L + 1"
    using assms(2,3) by (simp add: inner_limit_def int_limit_def)
  have stop: "stop_limit a darray = L"
    by (rule stop_limit_nat [OF assms(3,4)])
  from assms(1) have ne: "darray \<noteq> []"
    and bs: "case batch_size a of None \<Rightarrow> True | Some b \<Rightarrow> 0 < b"
    by (auto simp: matching_call_def split: option.splits)
  let ?R = "match_row d a s darray q"
  let ?cands = "cands_of ?R"
  let ?keep = "keep s self darray (only_id a) (exclude_self a) q"
  let ?g = "\<lambda>c. doc_id (s (darray ! fst c))"
  have le: "inner_limit a darray \<le> length darray"
    using assms(6) by (simp add: k)
  have lenR: "length ?R = L + 1"
    using match_row_full(1) [OF ne bs le] by (simp add: k)
  have distR: "distinct (map snd ?R)"
    by (rule match_row_full(2) [OF ne bs le])
  have bndR: "\<forall>i \<in> set (map snd ?R). i < length (map (\<lambda>x. doc_id (s x)) darray)"
    using match_row_bound [OF ne, of _ d a s q] by auto
  have "distinct (map (\<lambda>i. map (\<lambda>x. doc_id (s x)) darray ! i) (map snd ?R))"
    by (rule distinct_map_nth [OF assms(5) distR bndR])
  moreover have "map (\<lambda>i. map (\<lambda>x. doc_id (s x)) darray ! i) (map snd ?R) = map ?g ?cands"
    using bndR by (simp add: cands_of_def o_def)
  ultimately have dg: "distinct (map ?g ?cands)"
    by simp
  have nk: "filter (\<lambda>c. \<not> ?keep c) ?cands = filter (\<lambda>c. ?g c = doc_id (s q)) ?cands"
    using assms(2) by (simp add: keep_def doc_id_resolve)
  have "length (filter ?keep ?cands) + length (filter (\<lambda>c. \<not> ?keep c) ?cands) = length ?cands"
    by (rule sum_length_filter_compl)
  moreover have "length (filter (\<lambda>c. \<not> ?keep c) ?cands) \<le> 1"
    unfolding nk by (rule length_filter_unique [OF dg])
  moreover have "length ?cands = L + 1"
    by (simp add: length_cands_of lenR)
  ultimately have enough: "L \<le> length (filter ?keep ?cands)"
    by linarith
  from match_call [OF assms(1)] obtain s' where run: "match env s self darray a = (None, s')"
    and ch: "\<forall>q \<in> set self. matches (s' q) =
                 built s self darray (only_id a) (exclude_self a) (chosen_name a)
                   (stop_limit a darray) q (cands_of (match_row d a s darray q))"
    by blast
  from ch assms(7) have ms: "matches (s' q) =
      built s self darray (only_id a) (exclude_self a) (chosen_name a) L q ?cands"
    by (simp add: stop)
  have len: "length (matches (s' q)) = L"
    using enough assms(4) by (simp add: ms built_def)
  have "\<forall>x \<in> set (matches (s' q)). doc_id x \<noteq> doc_id (s q)"
  proof
    fix x assume "x \<in> set (matches (s' q))"
    then have "x \<in> set (built s self darray (only_id a) (exclude_self a) (chosen_name a) L q ?cands)"
      by (simp add: ms)
    from built_elem [OF this] obtain c where "?keep c"
      and "x = entry s self darray (only_id a) (chosen_name a) c"
      by blast
    with assms(2) show "doc_id x \<noteq> doc_id (s q)"
      by (simp add: keep_def doc_id_resolve doc_id_entry)
  qed
  with k run len show ?thesis by simp
qed

theorem match_exclude_self_keeps_limit_witness:
  "matching_call ex_env (ex_args\<lparr>limit := Some 2, exclude_self := True, batch_size := Some 2\<rparr>)
     shared_store [0, 1, 2] [0, 1, 2] abs_metric
   \<and> inner_limit (ex_args\<lparr>limit := Some 2, exclude_self := True, batch_size := Some 2\<rparr>) [0, 1, 2] = 3
   \<and> length (matches (snd (match ex_env shared_store [0, 1, 2] [0, 1, 2]
        (ex_args\<lparr>limit := Some 2, exclude_self := True, batch_size := Some 2\<rparr>)) 0)) = 2"
proof -
  let ?a = "ex_args\<lparr>limit := Some 2, exclude_self := True, batch_size := Some 2\<rparr>"
  have call: "matching_call ex_env ?a shared_store [0, 1, 2] [0, 1, 2] abs_metric"
    by (simp add: matching_call_def ex_args_def ex_env_def chosen_cdist_def shared_store_def)
  have excl: "exclude_self ?a"
    by (simp add: ex_args_def)
  have l: "limit ?a = Some (real 2)"
    by (simp add: ex_args_def)
  have pos: "0 < (2::nat)"
    by simp
  have ids: "distinct (map (\<lambda>x. doc_id (shared_store x)) [0, 1, 2])"
    by (simp add: shared_store_def)
  have m: "2 + 1 \<le> length [0, 1, 2::nat]"
    by simp
  have q: "(0::nat) \<in> set [0, 1, 2]"
    by simp
  from match_exclude_self_keeps_limit [OF call excl l pos ids m q] call show ?thesis
    by simp
qed

section \<open>Agreement of the two matchers\<close>

lemma map_fst_merge_row:
  "map fst (merge_row k a b) = take k (sort (map fst a @ map fst b))"
  by (simp add: merge_row_def take_map [symmetric] map_sort_key)

lemma batch_row_None_value:
  assumes "p \<in> set (batch_row None k i (take bsize (drop i row)))"
  shows "fst p = Fin (row ! snd p)"
proof -
  let ?b = "take bsize (drop i row)"
  have "batch_row None k i ?b = map (\<lambda>p'. (Fin (fst p'), i + snd p')) (top_k_row k ?b)"
    by (simp add: batch_row_def Let_def zip_map1 zip_map2 zip_same_conv_map o_def)
  with assms obtain p' where p': "p' \<in> set (top_k_row k ?b)" "p = (Fin (fst p'), i + snd p')"
    by auto
  from top_k_row_bound [OF p'(1)] have b: "snd p' < length ?b" "?b ! snd p' = fst p'"
    by simp_all
  then have "i \<le> length row"
    by (auto intro: ccontr)
  with b have "row ! (i + snd p') = fst p'"
    by simp
  with p'(2) show ?thesis by simp
qed

lemma take_take_drop: "take i xs @ take n (drop i xs) = take (i + n) xs"
  by (simp add: take_add)

lemma online_acc_values:
  assumes "0 < bsize" and "j \<le> (length row + bsize - 1) div bsize"
  shows "map fst (online_acc None k bsize row (map (\<lambda>j. j * bsize) [0..<j]) [])
           = map Fin (take k (sort (take (j * bsize) row)))
       \<and> (\<forall>p \<in> set (online_acc None k bsize row (map (\<lambda>j. j * bsize) [0..<j]) []).
             fst p = Fin (row ! snd p))"
  using assms(2)
proof (induction j)
  case 0
  then show ?case by (simp add: online_acc_def)
next
  case (Suc j)
  let ?i = "j * bsize"
  let ?F = "online_acc None k bsize row (map (\<lambda>j. j * bsize) [0..<j]) []"
  let ?brow = "take bsize (drop ?i row)"
  let ?N = "batch_row None k ?i ?brow"
  from Suc have vals: "map fst ?F = map Fin (take k (sort (take ?i row)))"
    and pt: "\<forall>p \<in> set ?F. fst p = Fin (row ! snd p)"
    by simp_all
  have step: "online_acc None k bsize row (map (\<lambda>j. j * bsize) [0..<Suc j]) [] = merge_row k ?F ?N"
    unfolding py_range_Suc online_acc_snoc ..
  have N: "map fst ?N = map Fin (take k (sort ?brow))"
    by (simp add: map_fst_batch_row map_fst_top_k_row)
  have "map fst (merge_row k ?F ?N) =
        take k (sort (map Fin (take k (sort (take ?i row)) @ take k (sort ?brow))))"
    by (simp add: map_fst_merge_row vals N)
  also have "\<dots> = map Fin (take k (sort (take k (sort (take ?i row)) @ take k (sort ?brow))))"
    by (simp only: sort_map_Fin take_map)
  also have "take k (sort (take k (sort (take ?i row)) @ take k (sort ?brow))) =
             take k (sort (take k (sort (take ?i row)) @ ?brow))"
    by (rule take_sort_key_append_take)
  also have "\<dots> = take k (sort (take ?i row @ ?brow))"
    by (rule take_sort_take_append)
  also have "take ?i row @ ?brow = take (Suc j * bsize) row"
    by (simp add: take_take_drop add.commute)
  finally have v: "map fst (merge_row k ?F ?N) = map Fin (take k (sort (take (Suc j * bsize) row)))" .
  have p: "\<forall>p \<in> set (merge_row k ?F ?N). fst p = Fin (row ! snd p)"
  proof
    fix p assume "p \<in> set (merge_row k ?F ?N)"
    then have "p \<in> set ?F \<or> p \<in> set ?N"
      using merge_row_set by blast
    then show "fst p = Fin (row ! snd p)"
      using pt batch_row_None_value by blast
  qed
  from v p show ?case unfolding step by blast
qed

lemma online_best_values:
  assumes "0 < bsize"
  shows "map fst (online_best None k bsize row) = map Fin (take k (sort row))"
    and "\<forall>p \<in> set (online_best None k bsize row). fst p = Fin (row ! snd p)"
proof -
  let ?n = "(length row + bsize - 1) div bsize"
  let ?F = "online_acc None k bsize row (py_range (length row) bsize) []"
  have cov: "take (?n * bsize) row = row"
    using range_covers [OF assms, of "length row"] by simp
  from online_acc_values [OF assms order_refl, where row = row and k = k]
  have v: "map fst ?F = map Fin (take k (sort row))"
    and p: "\<forall>p \<in> set ?F. fst p = Fin (row ! snd p)"
    unfolding py_range_def cov by simp_all
  have "map fst (online_best None k bsize row) = sort (map fst ?F)"
    by (simp add: online_best_def map_sort_key)
  also have "\<dots> = map Fin (sort (take k (sort row)))"
    by (simp only: v sort_map_Fin)
  also have "sort (take k (sort row)) = take k (sort row)"
    by (simp add: sort_key_id_if_sorted)
  finally show "map fst (online_best None k bsize row) = map Fin (take k (sort row))" .
  show "\<forall>p \<in> set (online_best None k bsize row). fst p = Fin (row ! snd p)"
    using p by (simp add: online_best_def)
qed

lemma mem_row_None: "mem_row None k row = map (\<lambda>p. (Fin (fst p), snd p)) (top_k_row k row)"
  by (simp add: mem_row_def Let_def zip_map1 zip_map2 zip_same_conv_map o_def)

lemma mem_row_None_value:
  assumes "p \<in> set (mem_row None k row)"
  shows "fst p = Fin (row ! snd p)"
proof -
  from assms obtain p' where "p' \<in> set (top_k_row k row)" "p = (Fin (fst p'), snd p')"
    unfolding mem_row_None by auto
  with top_k_row_bound [of p' k row] show ?thesis by simp
qed

lemma rows_agree:
  assumes "0 < bsize" and "k \<le> length row"
  shows "length (online_row None k bsize row) = k"
    and "length (mem_row None k row) = k"
    and "map fst (online_row None k bsize row) = map fst (mem_row None k row)"
    and "\<forall>j < k. row ! snd (online_row None k bsize row ! j) = row ! snd (mem_row None k row ! j)"
    and "distinct row \<Longrightarrow> map snd (online_row None k bsize row) = map snd (mem_row None k row)"
proof -
  let ?G = "online_best None k bsize row"
  let ?M = "mem_row None k row"
  have lG: "length ?G = k"
    using online_best_props(1) [OF assms(1), of None k row] assms(2) by simp
  have G: "online_row None k bsize row = ?G"
    using online_row_pad [of None k bsize row] by (simp add: lG)
  show lM: "length ?M = k"
    using assms(2) by (simp add: length_mem_row)
  show "length (online_row None k bsize row) = k"
    by (simp add: G lG)
  have fM: "map fst ?M = map Fin (take k (sort row))"
    by (simp add: map_fst_mem_row map_fst_top_k_row)
  show f: "map fst (online_row None k bsize row) = map fst ?M"
    by (simp add: G fM online_best_values(1) [OF assms(1)])
  have pt: "row ! snd (?G ! j) = row ! snd (?M ! j)" if "j < k" for j
  proof -
    from that lG lM have inG: "?G ! j \<in> set ?G" and inM: "?M ! j \<in> set ?M"
      by simp_all
    have "fst (?G ! j) = map fst ?G ! j" using that lG by simp
    also have "\<dots> = map fst ?M ! j" using f by (simp add: G)
    also have "\<dots> = fst (?M ! j)" using that lM by simp
    finally have "fst (?G ! j) = fst (?M ! j)" .
    with online_best_values(2) [OF assms(1), of k row] inG mem_row_None_value [OF inM]
    show ?thesis by simp
  qed
  then show "\<forall>j < k. row ! snd (online_row None k bsize row ! j) = row ! snd (?M ! j)"
    by (simp add: G)
  show "map snd (online_row None k bsize row) = map snd ?M" if d: "distinct row"
  proof (rule nth_equalityI)
    show "length (map snd (online_row None k bsize row)) = length (map snd ?M)"
      by (simp add: G lG lM)
  next
    fix j assume "j < length (map snd (online_row None k bsize row))"
    then have j: "j < k" by (simp add: G lG)
    with lG lM have inG: "?G ! j \<in> set ?G" and inM: "?M ! j \<in> set ?M"
      by simp_all
    from online_best_props(3) [OF assms(1), of None k row] inG have b1: "snd (?G ! j) < length row"
      by blast
    from mem_row_bound [OF inM] have b2: "snd (?M ! j) < length row" .
    from pt [OF j] d b1 b2 have "snd (?G ! j) = snd (?M ! j)"
      by (simp add: nth_eq_iff_index_eq)
    with j lG lM show "map snd (online_row None k bsize row) ! j = map snd ?M ! j"
      by (simp add: G)
  qed
qed

text \<open>
  C1, as amended: for a pairwise metric, a target collection whose first record
  has a dense embedding, no normalization range and a limit that does not exceed
  the size of the target collection, the online matcher returns, for every
  positive batch size, the distance array of the in-memory matcher, and
  an index array of the same shape whose entries refer to target records at the
  same distances as those of the in-memory matcher: the two index arrays are
  equal whenever the distances in each row are pairwise different.
\<close>

theorem matchers_agree:
  assumes "darray = a0 # rest" and "embedding (s a0) = Dense v"
    and "0 < bsize" and "k \<le> length darray"
  shows "\<exists>dst idx idx'.
           priv_match s self darray (pairwise_cdist d) k None name sp = Inr (dst, idx)
         \<and> priv_match_online s self darray (pairwise_cdist d) k None name bsize = Inr (dst, idx')
         \<and> length idx' = length idx
         \<and> (\<forall>r < length idx. length (idx' ! r) = length (idx ! r)
               \<and> (\<forall>j < length (idx ! r).
                     drow d name s darray (self ! r) ! (idx' ! r ! j)
                       = drow d name s darray (self ! r) ! (idx ! r ! j)))
         \<and> ((\<forall>q \<in> set self. distinct (drow d name s darray q)) \<longrightarrow> idx' = idx)"
proof -
  let ?row = "drow d name s darray"
  let ?M = "\<lambda>q. mem_row None k (?row q)"
  let ?O = "\<lambda>q. online_row None k bsize (?row q)"
  have ne: "darray \<noteq> []" using assms(1) by simp
  have len: "\<And>q. length (?row q) = length darray" by (simp add: drow_def)
  have kr: "\<And>q. k \<le> length (?row q)" using assms(4) by (simp add: len)
  have mk: "min k (length darray) = k" using assms(4) by simp
  have pm: "priv_match s self darray (pairwise_cdist d) k None name sp =
              Inr (map (\<lambda>q. map fst (?M q)) self, map (\<lambda>q. map snd (?M q)) self)"
    using priv_match_pairwise [OF ne, of s self d k None name sp] by (simp add: mk)
  have po: "priv_match_online s self darray (pairwise_cdist d) k None name bsize =
              Inr (map (\<lambda>q. map fst (?O q)) self, map (\<lambda>q. map snd (?O q)) self)"
    by (rule priv_match_online_pairwise [where s = s, OF assms(1,2,3)])
  have dst: "map (\<lambda>q. map fst (?O q)) self = map (\<lambda>q. map fst (?M q)) self"
    using rows_agree(3) [OF assms(3) kr] by simp
  have pt: "\<forall>r < length (map (\<lambda>q. map snd (?M q)) self).
              length (map (\<lambda>q. map snd (?O q)) self ! r) = length (map (\<lambda>q. map snd (?M q)) self ! r)
            \<and> (\<forall>j < length (map (\<lambda>q. map snd (?M q)) self ! r).
                  ?row (self ! r) ! (map (\<lambda>q. map snd (?O q)) self ! r ! j)
                    = ?row (self ! r) ! (map (\<lambda>q. map snd (?M q)) self ! r ! j))"
    using rows_agree(1,2,4) [OF assms(3) kr] by simp
  have eq: "(\<forall>q \<in> set self. distinct (?row q)) \<longrightarrow>
              map (\<lambda>q. map snd (?O q)) self = map (\<lambda>q. map snd (?M q)) self"
    using rows_agree(5) [OF assms(3) kr] by simp
  have l: "length (map (\<lambda>q. map snd (?O q)) self) = length (map (\<lambda>q. map snd (?M q)) self)"
    by simp
  from pm po [unfolded dst] l pt eq show ?thesis
    by blast
qed

theorem matchers_agree_witness:
  "priv_match ex_store [0] [1, 2, 3, 4, 5] (pairwise_cdist abs_metric) 3 None ''euclidean'' False
     = Inr ([[Fin 0, Fin 1, Fin 5]], [[3, 4, 0]])
   \<and> priv_match_online ex_store [0] [1, 2, 3, 4, 5] (pairwise_cdist abs_metric) 3 None
       ''euclidean'' 1
     = Inr ([[Fin 0, Fin 1, Fin 5]], [[3, 4, 0]])
   \<and> priv_match_online ex_store [0] [1, 2, 3, 4, 5] (pairwise_cdist abs_metric) 3 None
       ''euclidean'' 5
     = Inr ([[Fin 0, Fin 1, Fin 5]], [[3, 4, 0]])"
proof -
  have da: "[1, 2, 3, 4, 5] = (1::nat) # [2, 3, 4, 5]"
    by simp
  have dense: "embedding (ex_store 1) = Dense [5]"
    by (simp add: ex_store_def)
  have k: "3 \<le> length [1, 2, 3, 4, 5::nat]"
    by simp
  have distinct: "\<forall>q \<in> set [0]. distinct (drow abs_metric ''euclidean'' ex_store [1, 2, 3, 4, 5] q)"
    by (simp add: drow_def abs_metric_def ex_store_def)
  have pm: "priv_match ex_store [0] [1, 2, 3, 4, 5] (pairwise_cdist abs_metric) 3 None
              ''euclidean'' False = Inr ([[Fin 0, Fin 1, Fin 5]], [[3, 4, 0]])"
    by code_simp
  have "priv_match_online ex_store [0] [1, 2, 3, 4, 5] (pairwise_cdist abs_metric) 3 None
          ''euclidean'' b = Inr ([[Fin 0, Fin 1, Fin 5]], [[3, 4, 0]])" if "0 < b" for b
    using matchers_agree [where s = ex_store and self = "[0]" and d = abs_metric
        and name = "''euclidean''" and sp = False, OF da dense that k] distinct
    unfolding pm by auto
  from this [of 1] this [of 5] pm show ?thesis
    by simp
qed

text \<open>
  The online matcher asserts that the first target record has a dense embedding;
  the in-memory matcher does not. On a target collection of sparse embeddings
  the in-memory matcher returns and the online matcher raises.
\<close>

theorem matchers_sparse_target_counterexample:
  "priv_match sparse_store [0] [1, 2] (pairwise_cdist coord_metric) 1 None ''euclidean'' True
     = Inr ([[Fin 1]], [[1]])
   \<and> priv_match_online sparse_store [0] [1, 2] (pairwise_cdist coord_metric) 1 None
       ''euclidean'' 1 = Inl AssertionError"
  by code_simp

section \<open>Normalized scores\<close>

lemma normalize_value_unit_range:
  assumes "mn \<le> v" and "v \<le> mx"
  shows "0 \<le> normalize_value (0, 1) (mn, mx) v \<and> normalize_value (0, 1) (mn, mx) v \<le> 1"
proof (cases "mx = mn")
  case True
  then show ?thesis by simp
next
  case False
  with assms have "0 < mx - mn" by simp
  with assms show ?thesis by (simp add: False)
qed

lemma normalize_value_inverted:
  assumes "mn \<le> mx" and "v \<le> w"
  shows "normalize_value (1, 0) (mn, mx) w \<le> normalize_value (1, 0) (mn, mx) v"
proof (cases "mx = mn")
  case True
  then show ?thesis by simp
next
  case False
  with assms(1) have "0 < mx - mn" by simp
  moreover from assms(2) have "mn - w \<le> mn - v" by simp
  ultimately have "(mn - w) / (mx - mn) \<le> (mn - v) / (mx - mn)"
    by (simp add: divide_right_mono)
  with False show ?thesis by simp
qed

text \<open>
  On the in-memory path the range \<open>(0, 1)\<close> puts every score between 0 and 1, and
  with the range \<open>(1, 0)\<close> a smaller distance never gets a smaller score.
\<close>

lemma mem_row_unit_range:
  assumes "p \<in> set (mem_row (Some (0, 1)) k row)"
  shows "Fin 0 \<le> fst p \<and> fst p \<le> Fin 1"
proof -
  from assms have "fst p \<in> set (map fst (mem_row (Some (0, 1)) k row))"
    by simp
  then obtain v where v: "v \<in> set (take k (sort row))"
    and p: "fst p = Fin (normalize_value (0, 1) (row_min row, row_max row) v)"
    unfolding map_fst_mem_row map_fst_top_k_row by auto
  from v have vr: "v \<in> set row"
    by (auto dest: in_set_takeD)
  then have ne: "row \<noteq> []" by auto
  from vr have "Min (set row) \<le> v" "v \<le> Max (set row)"
    by simp_all
  then have "row_min row \<le> v" "v \<le> row_max row"
    by (simp_all add: row_min_Min [OF ne] row_max_Max [OF ne])
  from normalize_value_unit_range [OF this] show ?thesis
    unfolding p by simp
qed

lemma mem_row_inverted:
  assumes "i \<le> j" and "j < length (mem_row (Some (1, 0)) k row)"
  shows "fst (mem_row (Some (1, 0)) k row ! j) \<le> fst (mem_row (Some (1, 0)) k row ! i)"
proof -
  let ?vals = "take k (sort row)"
  let ?f = "normalize_value (1, 0) (row_min row, row_max row)"
  have m: "map fst (mem_row (Some (1, 0)) k row) = map Fin (map ?f ?vals)"
    by (simp add: map_fst_mem_row map_fst_top_k_row)
  from assms(2) have j: "j < length ?vals"
    using arg_cong [OF m, of length] by simp
  with assms(1) have i: "i < length ?vals" by simp
  have "sorted ?vals" by (simp add: sorted_wrt_take)
  with assms(1) j have "?vals ! i \<le> ?vals ! j"
    by (simp add: sorted_iff_nth_mono)
  from normalize_value_inverted [OF row_min_le_row_max this]
  have "?f (?vals ! j) \<le> ?f (?vals ! i)" .
  moreover have "fst (mem_row (Some (1, 0)) k row ! j) = map fst (mem_row (Some (1, 0)) k row) ! j"
    using assms(2) by simp
  moreover have "fst (mem_row (Some (1, 0)) k row ! i) = map fst (mem_row (Some (1, 0)) k row) ! i"
    using assms by simp
  moreover have "map Fin (map ?f ?vals) ! j = Fin (?f (?vals ! j))"
    using j by (simp del: normalize_value.simps)
  moreover have "map Fin (map ?f ?vals) ! i = Fin (?f (?vals ! i))"
    using i by (simp del: normalize_value.simps)
  ultimately show ?thesis
    unfolding m by (simp del: normalize_value.simps)
qed

text \<open>
  C6 on the batched path. With the range \<open>(1, 0)\<close>, six target records at the
  distances 5, 10, 7, 0, 1 and 2, batches of three and a limit of four, the call
  keeps the targets at the distances 10, 2, 1 and 7 with the scores 0, 0, 1/2
  and 3/5: the closest record kept, at distance 1, does not have the highest
  score, and the target at distance 0 is not kept at all. With the range
  \<open>(0, 1)\<close>, two target records, batches of one and a limit of three, the third
  match has the score \<open>PInf\<close>.
\<close>

theorem online_normalization_evaluation:
  "matches (snd (match ex_env ex_store [0] [1, 2, 3, 4, 5, 6]
      (ex_args\<lparr>limit := Some 4, normalization := Some (1, 0), batch_size := Some 3\<rparr>)) 0)
     = [Doc ''b'' (Dense [10]) [(''euclidean'', Fin 0)] [],
        Doc ''f'' (Dense [2]) [(''euclidean'', Fin 0)] [],
        Doc ''e'' (Dense [1]) [(''euclidean'', Fin (1 / 2))] [],
        Doc ''c'' (Dense [7]) [(''euclidean'', Fin (3 / 5))] []]
   \<and> matches (snd (match ex_env ex_store [0] [1, 2]
      (ex_args\<lparr>limit := Some 3, normalization := Some (0, 1), batch_size := Some 1\<rparr>)) 0)
     = [Doc ''a'' (Dense [5]) [(''euclidean'', Fin 0)] [],
        Doc ''b'' (Dense [10]) [(''euclidean'', Fin 0)] [],
        Doc ''a'' (Dense [5]) [(''euclidean'', PInf)] []]"
  by code_simp

section \<open>Validation and the empty case\<close>

text \<open>
  C9, as amended: when the source or the target collection is empty and the
  arguments pass validation (\<open>limit\<close>, when given, is positive and \<open>batch_size\<close>,
  when given, is positive), \<open>match\<close> returns without raising and leaves the store
  as it was.
\<close>

theorem match_empty_is_noop:
  assumes "self = [] \<or> darray = []"
    and "case limit a of None \<Rightarrow> True | Some l \<Rightarrow> 0 < l"
    and "case batch_size a of None \<Rightarrow> True | Some b \<Rightarrow> 0 < b"
  shows "match env s self darray a = (None, s)"
  using assms by (auto simp: match_def split: option.splits)

theorem match_empty_is_noop_witness:
  "match ex_env ex_store [] [1, 2] ex_args = (None, ex_store)"
  using match_empty_is_noop [of "[]" "[1, 2]" ex_args ex_env ex_store]
  by (simp add: ex_args_def)

text \<open>
  The empty check comes after the validation of \<open>limit\<close>: with an empty source and
  \<open>limit = 0\<close> the call raises.
\<close>

theorem match_empty_raises_counterexample:
  "match ex_env ex_store [] [1, 2] (ex_args\<lparr>limit := Some 0\<rparr>) = (Some ValueError, ex_store)"
  by (simp add: match_def ex_args_def)

text \<open>
  C8, as amended: \<open>match\<close> raises \<open>ValueError\<close> and leaves the store as it was
  when \<open>limit\<close> is given and not positive; it raises \<open>ValueError\<close> and leaves the
  store as it was when \<open>batch_size\<close> is given and not positive; and it raises
  \<open>TypeError\<close> and leaves the store as it was when the metric is neither a string
  nor a callable, both collections are non-empty and \<open>limit\<close> and \<open>batch_size\<close>
  pass validation.
\<close>

theorem match_validation_raises_unchanged:
  "((case limit a of None \<Rightarrow> False | Some l \<Rightarrow> l \<le> 0)
      \<longrightarrow> match env s self darray a = (Some ValueError, s))
   \<and> ((case batch_size a of None \<Rightarrow> False | Some b \<Rightarrow> b \<le> 0)
      \<longrightarrow> match env s self darray a = (Some ValueError, s))
   \<and> (metric a = MetricOther \<and> self \<noteq> [] \<and> darray \<noteq> []
        \<and> (case limit a of None \<Rightarrow> True | Some l \<Rightarrow> 0 < l)
        \<and> (case batch_size a of None \<Rightarrow> True | Some b \<Rightarrow> 0 < b)
      \<longrightarrow> match env s self darray a = (Some TypeError, s))"
  by (auto simp: match_def chosen_cdist_def split: option.splits)

theorem match_validation_raises_unchanged_witness:
  "match ex_env ex_store [0] [1, 2] (ex_args\<lparr>limit := Some 0\<rparr>) = (Some ValueError, ex_store)
   \<and> match ex_env ex_store [0] [1, 2] (ex_args\<lparr>batch_size := Some 0\<rparr>)
       = (Some ValueError, ex_store)
   \<and> match ex_env ex_store [0] [1, 2] (ex_args\<lparr>metric := MetricOther\<rparr>)
       = (Some TypeError, ex_store)"
  using match_validation_raises_unchanged
      [of "ex_args\<lparr>limit := Some 0\<rparr>" ex_env ex_store "[0]" "[1, 2]"]
    match_validation_raises_unchanged
      [of "ex_args\<lparr>batch_size := Some 0\<rparr>" ex_env ex_store "[0]" "[1, 2]"]
    match_validation_raises_unchanged
      [of "ex_args\<lparr>metric := MetricOther\<rparr>" ex_env ex_store "[0]" "[1, 2]"]
  by (simp add: ex_args_def)

text \<open>
  The type of the metric is checked after the empty check: with an empty source
  and a metric that is neither a string nor a callable the call returns without
  raising.
\<close>

theorem match_bad_metric_counterexample:
  "match ex_env ex_store [] [1, 2] (ex_args\<lparr>metric := MetricOther\<rparr>) = (None, ex_store)"
  by (simp add: match_def ex_args_def)

end
